theory Spec2Isabelle
  imports Complex_Main "HOL-Library.Multiset"
begin

section \<open>Strings\<close>

text \<open>
  JavaScript strings are sequences of UTF-16 code units; here a string is a \<^typ>\<open>char list\<close>
  and a \<^typ>\<open>char\<close> stands for one code unit below 256. The regular expressions of the
  source have no \<open>u\<close> flag, so they work code unit by code unit, as the functions below do.
\<close>

definition lower_chars :: string where
  "lower_chars = ''abcdefghijklmnopqrstuvwxyz''"

definition upper_chars :: string where
  "upper_chars = ''ABCDEFGHIJKLMNOPQRSTUVWXYZ''"

definition digit_chars :: string where
  "digit_chars = ''0123456789''"

text \<open>The character class \<open>[a-zA-Z0-9_-]\<close> of \<open>sanitizeId\<close> (src/db.ts).\<close>

definition id_char :: "char \<Rightarrow> bool" where
  "id_char c \<longleftrightarrow> c \<in> set (lower_chars @ upper_chars @ digit_chars @ ''_-'')"

text \<open>\<open>\w\<close> is \<open>[A-Za-z0-9_]\<close>; \<open>\s\<close> is the white space of ECMAScript below 256.\<close>

definition word_char :: "char \<Rightarrow> bool" where
  "word_char c \<longleftrightarrow> c \<in> set (lower_chars @ upper_chars @ digit_chars @ ''_'')"

definition space_char :: "char \<Rightarrow> bool" where
  "space_char c \<longleftrightarrow>
     c \<in> {CHR '' '', CHR 0x09, CHR 0x0A, CHR 0x0B, CHR 0x0C, CHR 0x0D, CHR 0xA0}"

text \<open>\<open>id.replace(/[^a-zA-Z0-9_-]/g, '_')\<close>\<close>

definition sanitizeId :: "string \<Rightarrow> string" where
  "sanitizeId ident = map (\<lambda>c. if id_char c then c else CHR ''_'') ident"

text \<open>
  \<open>join(DB_DIR, `${sanitizeId(sessionId)}.db`)\<close> of \<open>openDb\<close>: the sanitized name has no
  \<open>/\<close> and no dot segment to normalise, so the path is the directory, a separator and the
  name. \<open>DB_DIR\<close> depends on the home directory and is a parameter.
\<close>

definition dbPath :: "string \<Rightarrow> string \<Rightarrow> string" where
  "dbPath DB_DIR sessionId = DB_DIR @ ''/'' @ sanitizeId sessionId @ ''.db''"

text \<open>\<open>truncate\<close> of entry-tracker and self-annotate: \<open>s.length > max ? s.slice(0, max) + '...' : s\<close>.\<close>

definition truncate_str :: "string \<Rightarrow> nat \<Rightarrow> string" where
  "truncate_str s mx = (if length s > mx then take mx s @ ''...'' else s)"

text \<open>\<open>String(n)\<close> for an integer \<open>n\<close>: decimal digits, with a minus sign below zero.\<close>

fun decimal :: "nat \<Rightarrow> string \<Rightarrow> string" where
  "decimal n acc =
     (let acc' = (digit_chars ! (n mod 10)) # acc
      in if n div 10 = 0 then acc' else decimal (n div 10) acc')"

declare decimal.simps [simp del]

definition string_of_nat :: "nat \<Rightarrow> string" where
  "string_of_nat n = decimal n []"

definition string_of_int :: "int \<Rightarrow> string" where
  "string_of_int i = (if 0 \<le> i then string_of_nat (nat i) else CHR ''-'' # string_of_nat (nat (- i)))"

text \<open>\<open>s.split(c)\<close> for a one-character separator: \<open>.split(c)\<close> is \<open>[]\<close>.\<close>

fun split_on :: "char \<Rightarrow> string \<Rightarrow> string list" where
  "split_on c [] = [[]]"
| "split_on c (x # xs) =
     (if x = c then [] # split_on c xs
      else (case split_on c xs of [] \<Rightarrow> [[x]] | w # ws \<Rightarrow> (x # w) # ws))"

text \<open>\<open>xs.join(sep)\<close>\<close>

fun join :: "string \<Rightarrow> string list \<Rightarrow> string" where
  "join sep [] = []"
| "join sep [x] = x"
| "join sep (x # y # ys) = x @ sep @ join sep (y # ys)"

text \<open>\<open>p.split('/').filter(Boolean)\<close>\<close>

definition path_parts :: "string \<Rightarrow> string list" where
  "path_parts p = filter (\<lambda>w. w \<noteq> []) (split_on (CHR ''/'') p)"

text \<open>
  \<open>toLowerCase\<close> on code units below 256: the letters \<open>A\<close> to \<open>Z\<close> and the capital
  letters of Latin-1 (\<open>0xC0\<close> to \<open>0xDE\<close> without the sign \<open>0xD7\<close>) move up by 32.
\<close>

definition lower_char :: "char \<Rightarrow> char" where
  "lower_char c =
     (let n = (of_char c :: nat)
      in if (65 \<le> n \<and> n \<le> 90) \<or> (192 \<le> n \<and> n \<le> 222 \<and> n \<noteq> 215)
         then char_of (n + 32) else c)"

definition toLowerCase :: "string \<Rightarrow> string" where
  "toLowerCase s = map lower_char s"

text \<open>\<open>s.split(/\s+/)\<close>: a run of white space is one separator.\<close>

function split_ws :: "string \<Rightarrow> string list" where
  "split_ws [] = [[]]"
| "split_ws (x # xs) =
     (if space_char x then [] # split_ws (dropWhile space_char xs)
      else (case split_ws xs of [] \<Rightarrow> [[x]] | w # ws \<Rightarrow> (x # w) # ws))"
  by pat_completeness auto
termination
  by (relation "measure length") (auto simp: less_Suc_eq_le length_dropWhile_le)

text \<open>A JavaScript \<open>Set\<close> iterates in insertion order: a list without repetition.\<close>

definition set_add :: "'a \<Rightarrow> 'a list \<Rightarrow> 'a list" where
  "set_add x xs = (if x \<in> set xs then xs else xs @ [x])"

text \<open>\<open>[...new Set(xs)]\<close>: the first occurrence of each element, in order.\<close>

definition dedupe :: "'a list \<Rightarrow> 'a list" where
  "dedupe xs = foldl (\<lambda>acc x. set_add x acc) [] xs"

section \<open>Store (src/db.ts)\<close>

text \<open>
  A stored call summary is a JSON object of string fields, kept as the list of its
  key/value pairs in insertion order; \<open>JSON.stringify\<close> on insert and \<open>JSON.parse\<close> on
  read are inverse on such objects, so the column holds the list itself.
  An FTS document is the four indexed columns
  \<open>(file_path, description, tags, semantic_group)\<close>.
\<close>

type_synonym call_summary = "(string \<times> string) list"

type_synonym fts_doc = "string \<times> string \<times> string \<times> string"

record EntryRow =
  eid :: int
  prompt_index :: int
  file_path :: "string option"
  entry_type :: string
  tool_calls :: "call_summary list"
  description :: "string option"
  tags :: "string option"
  related_files :: "string list"
  semantic_group :: "string option"
  confidence :: "real option"
  low_relevance :: int
  annotation_status :: string
  created_at :: int

record LinkRow =
  link_id :: int
  source_id :: int
  target_id :: int
  link_type :: string
  link_created_at :: int

text \<open>
  The tables of \<open>createSchema\<close>, rows in insertion order. \<open>entries_seq\<close> and
  \<open>entry_links_seq\<close> are the \<open>sqlite_sequence\<close> counters of the two
  \<open>AUTOINCREMENT\<close> keys. \<open>entries_fts\<close> pairs each rowid with its document.
\<close>

record database =
  entries :: "EntryRow list"
  entries_seq :: int
  entries_fts :: "(int \<times> fts_doc) list"
  fts_map :: "(int \<times> int) list"
  entry_links :: "LinkRow list"
  entry_links_seq :: int
  session_state :: "(string \<times> string) list"

definition emptyDb :: database where
  "emptyDb = \<lparr>entries = [], entries_seq = 0, entries_fts = [], fts_map = [],
              entry_links = [], entry_links_seq = 0, session_state = []\<rparr>"

text \<open>
  A statement that violates a constraint of the schema throws; no function of the source
  opens a transaction, so the statements already run stay applied. An error therefore
  carries the database as it is when the exception leaves the function.
\<close>

datatype error = NotNullConstraint | UniqueConstraint | ProviderFailure | JsonParseFailure

text \<open>A rowid table without \<open>AUTOINCREMENT\<close> gives a new row the largest rowid plus one.\<close>

definition next_rowid :: "int list \<Rightarrow> int" where
  "next_rowid rs = (if rs = [] then 1 else Max (set rs) + 1)"

text \<open>With \<open>AUTOINCREMENT\<close> the new key also exceeds every key used before.\<close>

definition next_autoinc :: "int \<Rightarrow> int list \<Rightarrow> int" where
  "next_autoinc sq ids = max sq (if ids = [] then 0 else Max (set ids)) + 1"

subsection \<open>Session state\<close>

definition getState :: "database \<Rightarrow> string \<Rightarrow> string option" where
  "getState db key = map_of (session_state db) key"

fun assoc_set :: "'k \<Rightarrow> 'v \<Rightarrow> ('k \<times> 'v) list \<Rightarrow> ('k \<times> 'v) list" where
  "assoc_set k v [] = [(k, v)]"
| "assoc_set k v (p # ps) = (if fst p = k then (k, v) # ps else p # assoc_set k v ps)"

definition setState :: "database \<Rightarrow> string \<Rightarrow> string \<Rightarrow> database" where
  "setState db key val = db\<lparr>session_state := assoc_set key val (session_state db)\<rparr>"

text \<open>
  \<open>parseInt(v, 10)\<close>: leading white space is skipped, a sign is read, and the longest
  prefix of decimal digits is the value; with no digit the result is \<open>NaN\<close>, here \<open>None\<close>.
\<close>

definition digit_val :: "char \<Rightarrow> nat" where
  "digit_val c = length (takeWhile (\<lambda>d. d \<noteq> c) digit_chars)"

definition parseInt :: "string \<Rightarrow> int option" where
  "parseInt s =
     (let s1 = dropWhile space_char s;
          neg = (s1 \<noteq> [] \<and> hd s1 = CHR ''-'');
          s2 = (if s1 \<noteq> [] \<and> (hd s1 = CHR ''-'' \<or> hd s1 = CHR ''+'') then tl s1 else s1);
          ds = takeWhile (\<lambda>c. c \<in> set digit_chars) s2;
          n = int (foldl (\<lambda>acc c. 10 * acc + digit_val c) 0 ds)
      in if ds = [] then None else Some (if neg then - n else n))"

text \<open>
  \<open>v ? parseInt(v, 10) : 0\<close>. \<open>setPromptIndex\<close> is the only writer of the key and
  stores \<open>String(idx)\<close> for a counter that starts at 0 and grows by one per prompt. Two
  cases that no hook produces are outside the model: a stored value without a leading
  number, for which the source returns \<open>NaN\<close> and the model \<open>0\<close>, and a value beyond
  \<open>2^53\<close>, which the source rounds to a double and the model reads exactly.
\<close>

definition getPromptIndex :: "database \<Rightarrow> int" where
  "getPromptIndex db =
     (case getState db ''prompt_index'' of
        None \<Rightarrow> 0
      | Some v \<Rightarrow> if v = [] then 0 else (case parseInt v of None \<Rightarrow> 0 | Some n \<Rightarrow> n))"

definition setPromptIndex :: "database \<Rightarrow> int \<Rightarrow> database" where
  "setPromptIndex db idx = setState db ''prompt_index'' (string_of_int idx)"

subsection \<open>Entries, the FTS table and its map\<close>

text \<open>
  \<open>INSERT INTO fts_map (fts_rowid, entry_id)\<close>: \<open>fts_rowid\<close> is the primary key and
  \<open>entry_id\<close> is \<open>NOT NULL UNIQUE\<close>. The entry id of \<open>annotateEntry\<close> may come from a
  parsed LLM response, where \<open>null\<close> is possible: \<open>None\<close> is that SQL \<open>NULL\<close>.
\<close>

definition insertFtsMap :: "database \<Rightarrow> int \<Rightarrow> int option \<Rightarrow> (error \<times> database) + database" where
  "insertFtsMap db ftsRowid entryId =
     (case entryId of
        None \<Rightarrow> Inl (NotNullConstraint, db)
      | Some i \<Rightarrow>
          if ftsRowid \<in> fst ` set (fts_map db) \<or> i \<in> snd ` set (fts_map db)
          then Inl (UniqueConstraint, db)
          else Inr (db\<lparr>fts_map := fts_map db @ [(ftsRowid, i)]\<rparr>))"

definition insertFts :: "database \<Rightarrow> fts_doc \<Rightarrow> database \<times> int" where
  "insertFts db doc =
     (let ftsRowid = next_rowid (map fst (entries_fts db))
      in (db\<lparr>entries_fts := entries_fts db @ [(ftsRowid, doc)]\<rparr>, ftsRowid))"

definition str_or_empty :: "string option \<Rightarrow> string" where
  "str_or_empty v = (case v of None \<Rightarrow> [] | Some s \<Rightarrow> s)"

text \<open>\<open>Date.now()\<close> is the parameter \<open>now\<close> of every function that reads the clock.\<close>

definition insertEntry ::
  "int \<Rightarrow> database \<Rightarrow> int \<Rightarrow> string option \<Rightarrow> string \<Rightarrow> call_summary list
     \<Rightarrow> (error \<times> database) + (database \<times> int)" where
  "insertEntry now db promptIndex filePath entryType toolCalls =
     (let entryId = next_autoinc (entries_seq db) (map eid (entries db));
          row = \<lparr>eid = entryId, prompt_index = promptIndex, file_path = filePath,
                 entry_type = entryType, tool_calls = toolCalls, description = None,
                 tags = None, related_files = [], semantic_group = None, confidence = None,
                 low_relevance = 0, annotation_status = ''pending'', created_at = now\<rparr>;
          db1 = db\<lparr>entries := entries db @ [row], entries_seq := entryId\<rparr>;
          (db2, ftsRowid) = insertFts db1 (str_or_empty filePath, [], [], [])
      in (case insertFtsMap db2 ftsRowid (Some entryId) of
            Inl e \<Rightarrow> Inl e
          | Inr db3 \<Rightarrow> Inr (db3, entryId)))"

text \<open>
  \<open>UPDATE entries SET ... WHERE id = ?\<close>, the two \<open>SELECT\<close>s, the deletion of the old FTS
  row and map row when a mapping exists, and the insertion of the new ones. A \<open>NULL\<close> id
  matches no row in any \<open>WHERE\<close> clause.
\<close>

definition annotateRow ::
  "string \<Rightarrow> string \<Rightarrow> string \<Rightarrow> string list \<Rightarrow> real \<Rightarrow> bool \<Rightarrow> EntryRow \<Rightarrow> EntryRow" where
  "annotateRow descr tgs semanticGroup relatedFiles conf lowRelevance e =
     e\<lparr>description := Some descr, tags := Some tgs, semantic_group := Some semanticGroup,
       related_files := relatedFiles, confidence := Some conf,
       low_relevance := (if lowRelevance then 1 else 0),
       annotation_status := ''annotated''\<rparr>"

definition annotateEntry ::
  "database \<Rightarrow> int option \<Rightarrow> string \<Rightarrow> string \<Rightarrow> string \<Rightarrow> string list \<Rightarrow> real \<Rightarrow> bool
     \<Rightarrow> (error \<times> database) + database" where
  "annotateEntry db ident descr tgs semanticGroup relatedFiles conf lowRelevance =
     (let db1 = db\<lparr>entries :=
                   map (\<lambda>e. if Some (eid e) = ident
                            then annotateRow descr tgs semanticGroup relatedFiles conf lowRelevance e
                            else e) (entries db)\<rparr>;
          entry = find (\<lambda>e. Some (eid e) = ident) (entries db1);
          mapping = find (\<lambda>m. Some (snd m) = ident) (fts_map db1);
          db2 = (case mapping of
                   None \<Rightarrow> db1
                 | Some m \<Rightarrow>
                     db1\<lparr>entries_fts := filter (\<lambda>r. fst r \<noteq> fst m) (entries_fts db1),
                         fts_map := filter (\<lambda>m'. Some (snd m') \<noteq> ident) (fts_map db1)\<rparr>);
          fp = (case entry of None \<Rightarrow> [] | Some e \<Rightarrow> str_or_empty (file_path e));
          (db3, newFtsRowid) = insertFts db2 (fp, descr, tgs, semanticGroup)
      in insertFtsMap db3 newFtsRowid ident)"

definition insertSummaryEntry ::
  "int \<Rightarrow> database \<Rightarrow> int \<Rightarrow> string \<Rightarrow> string \<Rightarrow> (error \<times> database) + (database \<times> int)" where
  "insertSummaryEntry now db promptIndex summary tgs =
     (let entryId = next_autoinc (entries_seq db) (map eid (entries db));
          row = \<lparr>eid = entryId, prompt_index = promptIndex, file_path = None,
                 entry_type = ''summary'', tool_calls = [], description = Some summary,
                 tags = Some tgs, related_files = [], semantic_group = None, confidence = None,
                 low_relevance = 0, annotation_status = ''annotated'', created_at = now\<rparr>;
          db1 = db\<lparr>entries := entries db @ [row], entries_seq := entryId\<rparr>;
          (db2, ftsRowid) = insertFts db1 ([], summary, tgs, [])
      in (case insertFtsMap db2 ftsRowid (Some entryId) of
            Inl e \<Rightarrow> Inl e
          | Inr db3 \<Rightarrow> Inr (db3, entryId)))"

text \<open>
  \<open>INSERT OR IGNORE\<close>: a triple already present leaves the rows of the table as they
  are. SQLite has chosen the key of the new row by then, and the \<open>AUTOINCREMENT\<close>
  counter keeps it: the counter advances on an ignored insert as on an inserted row.
\<close>

definition insertLink :: "int \<Rightarrow> database \<Rightarrow> int \<Rightarrow> int \<Rightarrow> string \<Rightarrow> database" where
  "insertLink now db sourceId targetId linkType =
     (let i = next_autoinc (entry_links_seq db) (map link_id (entry_links db))
      in if (sourceId, targetId, linkType)
              \<in> (\<lambda>l. (source_id l, target_id l, link_type l)) ` set (entry_links db)
         then db\<lparr>entry_links_seq := i\<rparr>
         else db\<lparr>entry_links := entry_links db @
                    [\<lparr>link_id = i, source_id = sourceId, target_id = targetId,
                      link_type = linkType, link_created_at = now\<rparr>],
                  entry_links_seq := i\<rparr>)"

definition in_progress :: "EntryRow \<Rightarrow> bool" where
  "in_progress e \<longleftrightarrow> annotation_status e = ''pending'' \<or> annotation_status e = ''annotating''"

definition markFailed :: "database \<Rightarrow> int \<Rightarrow> database" where
  "markFailed db promptIndex =
     db\<lparr>entries := map (\<lambda>e. if prompt_index e = promptIndex \<and> in_progress e
                             then e\<lparr>annotation_status := ''failed''\<rparr> else e) (entries db)\<rparr>"

definition getPendingEntries :: "database \<Rightarrow> int \<Rightarrow> EntryRow list" where
  "getPendingEntries db promptIndex =
     filter (\<lambda>e. prompt_index e = promptIndex \<and> in_progress e) (entries db)"

text \<open>
  \<open>ORDER BY prompt_index DESC LIMIT ?\<close>: rows of equal \<open>prompt_index\<close> stay in table
  order here (SQLite leaves their order open).
\<close>

definition getFailedEntries :: "database \<Rightarrow> nat \<Rightarrow> EntryRow list" where
  "getFailedEntries db limit =
     take limit (sort_key (\<lambda>e. - prompt_index e)
                   (filter (\<lambda>e. annotation_status e = ''failed'') (entries db)))"

definition markAnnotating :: "database \<Rightarrow> int list \<Rightarrow> database" where
  "markAnnotating db ids =
     (if ids = [] then db
      else db\<lparr>entries := map (\<lambda>e. if eid e \<in> set ids
                                  then e\<lparr>annotation_status := ''annotating''\<rparr> else e)
                             (entries db)\<rparr>)"

text \<open>
  \<open>UPDATE entries SET annotation_status = 'failed' WHERE id = ?\<close>, the statement at the
  end of \<open>annotatePrompt\<close>.
\<close>

definition setFailedById :: "database \<Rightarrow> int \<Rightarrow> database" where
  "setFailedById db i =
     db\<lparr>entries := map (\<lambda>e. if eid e = i then e\<lparr>annotation_status := ''failed''\<rparr> else e)
                        (entries db)\<rparr>"

section \<open>Configuration (src/config.ts)\<close>

definition CHARS_PER_TOKEN :: int where "CHARS_PER_TOKEN = 4"
definition TOKEN_BUDGET :: int where "TOKEN_BUDGET = 4000"
definition FTS_RESULT_LIMIT :: nat where "FTS_RESULT_LIMIT = 50"
definition GROUP_EXPANSION_LIMIT :: nat where "GROUP_EXPANSION_LIMIT = 3"
definition FTS_MAX_TERMS :: nat where "FTS_MAX_TERMS = 16"

definition IGNORED_TOOLS :: "string list" where
  "IGNORED_TOOLS =
     [''EnterPlanMode'', ''ExitPlanMode'', ''AskUserQuestion'',
      ''TodoRead'', ''TodoWrite'', ''TaskCreate'', ''TaskUpdate'',
      ''TaskList'', ''TaskGet'']"

definition FILE_TOOLS :: "string list" where
  "FILE_TOOLS = [''Read'', ''Write'', ''Edit'', ''Glob'', ''Grep'', ''NotebookEdit'']"

definition WRITE_TOOLS :: "string list" where
  "WRITE_TOOLS = [''Write'', ''Edit'', ''NotebookEdit'']"

definition TOOL_KEY_FIELDS :: "(string \<times> string) list" where
  "TOOL_KEY_FIELDS =
     [(''Read'', ''file_path''),
      (''Write'', ''file_path''),
      (''Edit'', ''file_path''),
      (''NotebookEdit'', ''notebook_path''),
      (''Glob'', ''pattern''),
      (''Grep'', ''pattern''),
      (''Bash'', ''command''),
      (''WebSearch'', ''query''),
      (''WebFetch'', ''url''),
      (''Task'', ''prompt'')]"

section \<open>Grouper (src/entry-tracker.ts)\<close>

text \<open>
  A buffered call as \<open>on-tool\<close> wrote it. \<open>tool_input\<close> is a JSON object; the fields the
  code reads are strings in the tool calls of the host, and the object is the list of its
  string fields. A field that is absent is \<open>undefined\<close> in the source and \<open>None\<close> under
  \<^const>\<open>map_of\<close>; a string is truthy when it is not empty.
\<close>

record BufferedCall =
  tool_name :: string
  tool_input :: "(string \<times> string) list"
  ts :: int

definition truthy :: "string option \<Rightarrow> bool" where
  "truthy v \<longleftrightarrow> (case v of None \<Rightarrow> False | Some s \<Rightarrow> s \<noteq> [])"

definition classifyTool :: "string \<Rightarrow> string" where
  "classifyTool name =
     (if name = ''Bash'' then ''command''
      else if name = ''WebSearch'' \<or> name = ''WebFetch'' then ''web''
      else if name = ''Task'' then ''research''
      else ''research'')"

definition opt_field :: "string \<Rightarrow> string option \<Rightarrow> call_summary" where
  "opt_field k v = (case v of None \<Rightarrow> [] | Some s \<Rightarrow> [(k, s)])"

definition summarizeCall :: "BufferedCall \<Rightarrow> call_summary" where
  "summarizeCall call =
     (let name = tool_name call; inp = map_of (tool_input call);
          key = (case map_of TOOL_KEY_FIELDS name of
                   None \<Rightarrow> []
                 | Some keyField \<Rightarrow>
                     (case inp keyField of
                        None \<Rightarrow> []
                      | Some v \<Rightarrow> [(keyField, truncate_str v 300)]));
          extra =
            (if name = ''Edit'' then
               (if truthy (inp ''old_string'')
                then [(''old_string'', truncate_str (str_or_empty (inp ''old_string'')) 200)] else []) @
               (if truthy (inp ''new_string'')
                then [(''new_string'', truncate_str (str_or_empty (inp ''new_string'')) 200)] else [])
             else if name = ''Grep'' then
               (if truthy (inp ''glob'') then opt_field ''glob'' (inp ''glob'') else []) @
               (if truthy (inp ''path'') then opt_field ''path'' (inp ''path'') else [])
             else if name = ''Bash'' then
               (if truthy (inp ''description'')
                then [(''description'', truncate_str (str_or_empty (inp ''description'')) 200)] else [])
             else if name = ''Task'' then
               (if truthy (inp ''description'')
                then [(''description'', truncate_str (str_or_empty (inp ''description'')) 200)] else [])
             else [])
      in [(''tool'', name)] @ key @ extra)"

text \<open>
  The first loop of \<open>flushToEntries\<close>. \<open>fileGroups\<close> is a \<open>Map\<close>, which iterates in the
  order its keys were first set: an association list updated in place.
\<close>

definition fileKey :: "BufferedCall \<Rightarrow> string" where
  "fileKey call =
     (case map_of (tool_input call) ''file_path'' of
        Some fp \<Rightarrow> fp
      | None \<Rightarrow>
          (case map_of (tool_input call) ''notebook_path'' of
             Some np \<Rightarrow> np
           | None \<Rightarrow> ''_unknown''))"

fun groupCalls ::
  "BufferedCall list \<Rightarrow> (string \<times> BufferedCall list) list \<Rightarrow> BufferedCall list
     \<Rightarrow> (string \<times> BufferedCall list) list \<times> BufferedCall list" where
  "groupCalls [] fileGroups standalone = (fileGroups, standalone)"
| "groupCalls (call # calls) fileGroups standalone =
     (if tool_name call \<in> set IGNORED_TOOLS then groupCalls calls fileGroups standalone
      else if tool_name call \<in> set FILE_TOOLS then
        (let fp = fileKey call;
             grp = (case map_of fileGroups fp of None \<Rightarrow> [] | Some g \<Rightarrow> g)
         in groupCalls calls (assoc_set fp (grp @ [call]) fileGroups) standalone)
      else groupCalls calls fileGroups (standalone @ [call]))"

text \<open>
  The loop over the file groups and the loop over the standalone calls.
  \<open>TOOL_KEY_FIELDS[name]\<close> is read here as a lookup among the ten entries of the table.
  In the source the table is a plain object, so a tool name that is also a property every
  object inherits (\<open>constructor\<close>, \<open>toString\<close>, ...) finds that property; the host sends no
  tool of such a name, and the case is outside the model.
\<close>

fun insertGroups ::
  "int \<Rightarrow> database \<Rightarrow> int \<Rightarrow> (string \<times> BufferedCall list) list \<Rightarrow> int list
     \<Rightarrow> (error \<times> database) + (database \<times> int list)" where
  "insertGroups now db promptIndex [] ids = Inr (db, ids)"
| "insertGroups now db promptIndex ((filePath, grp) # rest) ids =
     (let hasWrite = (\<exists>c \<in> set grp. tool_name c \<in> set WRITE_TOOLS);
          entryType = (if hasWrite then ''file_change'' else ''research'');
          summarized = map summarizeCall grp
      in (case insertEntry now db promptIndex (Some filePath) entryType summarized of
            Inl e \<Rightarrow> Inl e
          | Inr (db', i) \<Rightarrow> insertGroups now db' promptIndex rest (ids @ [i])))"

fun insertStandalone ::
  "int \<Rightarrow> database \<Rightarrow> int \<Rightarrow> BufferedCall list \<Rightarrow> int list
     \<Rightarrow> (error \<times> database) + (database \<times> int list)" where
  "insertStandalone now db promptIndex [] ids = Inr (db, ids)"
| "insertStandalone now db promptIndex (call # rest) ids =
     (let entryType = classifyTool (tool_name call);
          filePath = (case map_of TOOL_KEY_FIELDS (tool_name call) of
                        None \<Rightarrow> None
                      | Some keyField \<Rightarrow>
                          Some (truncate_str (str_or_empty (map_of (tool_input call) keyField)) 500))
      in (case insertEntry now db promptIndex filePath entryType [summarizeCall call] of
            Inl e \<Rightarrow> Inl e
          | Inr (db', i) \<Rightarrow> insertStandalone now db' promptIndex rest (ids @ [i])))"

definition flushToEntries ::
  "int \<Rightarrow> database \<Rightarrow> int \<Rightarrow> BufferedCall list \<Rightarrow> (error \<times> database) + (database \<times> int list)" where
  "flushToEntries now db promptIndex calls =
     (let (fileGroups, standalone) = groupCalls calls [] []
      in (case insertGroups now db promptIndex fileGroups [] of
            Inl e \<Rightarrow> Inl e
          | Inr (db', ids) \<Rightarrow> insertStandalone now db' promptIndex standalone ids))"

section \<open>Self-annotator (src/self-annotate.ts)\<close>

definition KEYWORD_STOPS :: "string list" where
  "KEYWORD_STOPS =
     [''the'', ''a'', ''an'', ''is'', ''are'', ''was'', ''were'', ''be'', ''been'',
      ''to'', ''of'', ''in'', ''for'', ''on'', ''with'', ''at'', ''by'', ''from'',
      ''and'', ''or'', ''but'', ''not'', ''this'', ''that'', ''it'', ''its'',
      ''run'', ''running'', ''use'', ''using'', ''all'']"

text \<open>\<open>/[^\w\s-]/g\<close> replaced by a space, then split, then filtered.\<close>

definition extractKeywords :: "string \<Rightarrow> string list" where
  "extractKeywords txt =
     filter (\<lambda>w. length w > 2 \<and> w \<notin> set KEYWORD_STOPS)
       (split_ws (map (\<lambda>c. if word_char c \<or> space_char c \<or> c = CHR ''-'' then c else CHR '' '')
                    (toLowerCase txt)))"

definition shortenPath :: "string \<Rightarrow> string" where
  "shortenPath p =
     (let parts = path_parts p
      in if length parts \<le> 3 then p
         else ''.../'' @ join ''/'' (drop (length parts - 3) parts))"

definition or_else :: "string \<Rightarrow> string \<Rightarrow> string" where
  "or_else s d = (if s = [] then d else s)"

text \<open>\<open>calls.map(c => c.tool)\<close>, and \<open>calls.find(c => c.k)?.k\<close> for a field \<open>k\<close>.\<close>

definition toolsOf :: "call_summary list \<Rightarrow> string option list" where
  "toolsOf calls = map (\<lambda>c. map_of c ''tool'') calls"

definition findField :: "string \<Rightarrow> call_summary list \<Rightarrow> string option" where
  "findField k calls =
     (case find (\<lambda>c. truthy (map_of c k)) calls of None \<Rightarrow> None | Some c \<Rightarrow> map_of c k)"

text \<open>\<open>calls[0]?.k\<close>\<close>

definition firstField :: "string \<Rightarrow> call_summary list \<Rightarrow> string option" where
  "firstField k calls = (case calls of [] \<Rightarrow> None | c # _ \<Rightarrow> map_of c k)"

text \<open>\<open>fp ? shortenPath(fp) : ''\<close>\<close>

definition shortPathOf :: "EntryRow \<Rightarrow> string" where
  "shortPathOf entry =
     (case file_path entry of None \<Rightarrow> [] | Some fp \<Rightarrow> if fp = [] then [] else shortenPath fp)"

definition buildDescription :: "EntryRow \<Rightarrow> call_summary list \<Rightarrow> string" where
  "buildDescription entry calls =
     (let shortPath = shortPathOf entry;
          tools = toolsOf calls
      in if entry_type entry = ''file_change'' then
           (if Some ''Write'' \<in> set tools \<and> Some ''Edit'' \<notin> set tools then
              ''Created '' @ shortPath
            else if Some ''Edit'' \<in> set tools then
              (let editCalls = filter (\<lambda>c. map_of c ''tool'' = Some ''Edit'') calls
               in ''Modified '' @ shortPath @ '' ('' @ string_of_nat (length editCalls) @
                  '' edit'' @ (if length editCalls > 1 then ''s'' else []) @ '')'')
            else ''Changed '' @ shortPath)
         else if entry_type entry = ''research'' then
           (if Some ''Glob'' \<in> set tools \<or> Some ''Grep'' \<in> set tools then
              (let pat = findField ''pattern'' calls
               in if truthy pat
                  then ''Searched for '' @ [CHR 0x22] @ truncate_str (str_or_empty pat) 60 @ [CHR 0x22]
                  else ''Explored '' @ or_else shortPath ''codebase'')
            else if Some ''Read'' \<in> set tools then ''Read '' @ shortPath
            else if Some ''Task'' \<in> set tools then
              (let desc = findField ''description'' calls
               in if truthy desc then ''Subagent: '' @ truncate_str (str_or_empty desc) 80
                  else ''Ran subagent task'')
            else ''Researched '' @ or_else shortPath ''codebase'')
         else if entry_type entry = ''command'' then
           (let cmd = firstField ''command'' calls; desc = firstField ''description'' calls
            in if truthy desc then ''Ran: '' @ truncate_str (str_or_empty desc) 80
               else if truthy cmd then ''Ran: '' @ truncate_str (str_or_empty cmd) 80
               else ''Ran shell command'')
         else if entry_type entry = ''web'' then
           (let query = firstField ''query'' calls; url = firstField ''url'' calls
            in if truthy query then ''Web search: '' @ truncate_str (str_or_empty query) 80
               else if truthy url then ''Fetched: '' @ truncate_str (str_or_empty url) 80
               else ''Web activity'')
         else entry_type entry @ '' on '' @ or_else shortPath ''unknown'')"

definition pathTags :: "string option \<Rightarrow> string list" where
  "pathTags fp =
     (if truthy fp then
        (let parts = path_parts (str_or_empty fp);
             t1 = (if parts = [] then [] else [last parts]);
             ext = (if parts = [] then [] else last (split_on (CHR ''.'') (last parts)));
             t2 = (if ext \<noteq> [] \<and> parts \<noteq> [] \<and> ext \<noteq> last parts then set_add ext t1 else t1)
         in if length parts \<ge> 2 then set_add (parts ! (length parts - 2)) t2 else t2)
      else [])"

definition buildTags :: "EntryRow \<Rightarrow> call_summary list \<Rightarrow> string \<Rightarrow> string" where
  "buildTags entry calls userPrompt =
     (let t0 = pathTags (file_path entry);
          t1 = set_add (entry_type entry) t0;
          t2 = foldl (\<lambda>acc c. if truthy (map_of c ''tool'')
                               then set_add (toLowerCase (str_or_empty (map_of c ''tool''))) acc
                               else acc) t1 calls;
          t3 = foldl (\<lambda>acc c. if truthy (map_of c ''description'')
                               then foldl (\<lambda>a k. set_add k a) acc
                                      (extractKeywords (str_or_empty (map_of c ''description'')))
                               else acc) t2 calls;
          t4 = foldl (\<lambda>a k. set_add k a) t3 (take 5 (extractKeywords userPrompt))
      in join '','' t4)"

definition buildGroup :: "EntryRow \<Rightarrow> string" where
  "buildGroup entry =
     (if \<not> truthy (file_path entry) then entry_type entry
      else (let parts = path_parts (str_or_empty (file_path entry))
            in if length parts \<ge> 2 then parts ! (length parts - 2)
               else (case parts of [] \<Rightarrow> entry_type entry | p # _ \<Rightarrow> p)))"

definition isLowRelevance :: "EntryRow \<Rightarrow> call_summary list \<Rightarrow> bool" where
  "isLowRelevance entry calls =
     (if entry_type entry = ''research'' \<and> length calls = 1
      then (if firstField ''tool'' calls = Some ''Glob'' \<or> firstField ''tool'' calls = Some ''Grep''
            then False else False)
      else False)"

text \<open>The loop of \<open>selfAnnotatePrompt\<close> over the entries read at its start.\<close>

fun selfAnnotateLoop ::
  "database \<Rightarrow> string \<Rightarrow> EntryRow list \<Rightarrow> string list
     \<Rightarrow> (error \<times> database) + (database \<times> string list)" where
  "selfAnnotateLoop db userPrompt [] summaryParts = Inr (db, summaryParts)"
| "selfAnnotateLoop db userPrompt (entry # rest) summaryParts =
     (let calls = tool_calls entry;
          descr = buildDescription entry calls;
          tgs = buildTags entry calls userPrompt;
          grp = buildGroup entry
      in (case annotateEntry db (Some (eid entry)) descr tgs grp [] (3 / 10)
                 (isLowRelevance entry calls) of
            Inl e \<Rightarrow> Inl e
          | Inr db' \<Rightarrow> selfAnnotateLoop db' userPrompt rest (summaryParts @ [descr])))"

definition buildSummary :: "string list \<Rightarrow> string" where
  "buildSummary summaryParts =
     (case summaryParts of
        [d] \<Rightarrow> d
      | _ \<Rightarrow> string_of_nat (length summaryParts) @ '' activities: '' @
             join ''; '' (take 3 summaryParts) @
             (if length summaryParts > 3 then ''...'' else []))"

definition selfAnnotatePrompt :: "int \<Rightarrow> database \<Rightarrow> int \<Rightarrow> (error \<times> database) + database" where
  "selfAnnotatePrompt now db promptIndex =
     (let pending = getPendingEntries db promptIndex
      in if pending = [] then Inr db
         else
           (let userPrompt = str_or_empty (getState db (''prompt_'' @ string_of_int promptIndex))
            in (case selfAnnotateLoop db userPrompt pending [] of
                  Inl e \<Rightarrow> Inl e
                | Inr (db', summaryParts) \<Rightarrow>
                    (let allTags = join '','' (map (\<lambda>e. buildTags e (tool_calls e) userPrompt) pending);
                         uniqueTags = join '','' (dedupe
                                        (filter (\<lambda>t. t \<noteq> []) (split_on (CHR '','') allTags)))
                     in (case insertSummaryEntry now db' promptIndex (buildSummary summaryParts)
                                uniqueTags of
                           Inl e \<Rightarrow> Inl e
                         | Inr (db'', _) \<Rightarrow> Inr db'')))))"

section \<open>LLM annotator (src/annotate.ts)\<close>

text \<open>
  The parsed response. Fields marked optional in \<open>AnnotationResult\<close> are options; the
  \<open>entry_id\<close> is whatever number the model wrote, or \<open>null\<close>.
\<close>

record Annotation =
  entry_id :: "int option"
  ann_description :: string
  ann_tags :: string
  ann_related_files :: "string list option"
  ann_low_relevance :: "bool option"
  ann_confidence :: "real option"
  ann_semantic_group :: "string option"

record LinkSpec =
  source_entry_id :: int
  target_entry_id :: int
  ls_link_type :: string

record AnnotationResult =
  annotations :: "Annotation list option"
  links :: "LinkSpec list option"
  prompt_summary :: "(string \<times> string) option"

text \<open>
  What \<open>callLlm\<close> and \<open>JSON.parse\<close> give: the provider is outside the program, so the
  outcome is an input. The user message built from the entries only feeds the call.
\<close>

datatype llm_outcome = CallThrows | ParseThrows | Parsed AnnotationResult

definition or_default :: "'a option \<Rightarrow> 'a \<Rightarrow> 'a" where
  "or_default v d = (case v of None \<Rightarrow> d | Some x \<Rightarrow> x)"

fun applyAnnotations ::
  "database \<Rightarrow> Annotation list \<Rightarrow> int option list
     \<Rightarrow> (error \<times> database) + (database \<times> int option list)" where
  "applyAnnotations db [] annotatedIds = Inr (db, annotatedIds)"
| "applyAnnotations db (ann # rest) annotatedIds =
     (case annotateEntry db (entry_id ann) (ann_description ann) (ann_tags ann)
             (or_default (ann_semantic_group ann) [])
             (or_default (ann_related_files ann) [])
             (or_default (ann_confidence ann) (1 / 2))
             (or_default (ann_low_relevance ann) False) of
        Inl e \<Rightarrow> Inl e
      | Inr db' \<Rightarrow> applyAnnotations db' rest (set_add (entry_id ann) annotatedIds))"

definition applyLinks :: "int \<Rightarrow> database \<Rightarrow> LinkSpec list \<Rightarrow> database" where
  "applyLinks now db ls =
     foldl (\<lambda>d l. insertLink now d (source_entry_id l) (target_entry_id l) (ls_link_type l)) db ls"

text \<open>The three steps of the \<open>try\<close> block that apply a parsed response.\<close>

definition applyResult ::
  "int \<Rightarrow> database \<Rightarrow> int \<Rightarrow> AnnotationResult
     \<Rightarrow> (error \<times> database) + (database \<times> int option list)" where
  "applyResult now db promptIndex result =
     (case applyAnnotations db (or_default (annotations result) []) [] of
        Inl e \<Rightarrow> Inl e
      | Inr (db1, annotatedIds) \<Rightarrow>
          (let db2 = applyLinks now db1 (or_default (links result) [])
           in (case prompt_summary result of
                 None \<Rightarrow> Inr (db2, annotatedIds)
               | Some (summary, tgs) \<Rightarrow>
                   (case insertSummaryEntry now db2 promptIndex summary tgs of
                      Inl e \<Rightarrow> Inl e
                    | Inr (db3, _) \<Rightarrow> Inr (db3, annotatedIds)))))"

definition failUnannotated :: "database \<Rightarrow> EntryRow list \<Rightarrow> int option list \<Rightarrow> database" where
  "failUnannotated db allEntries annotatedIds =
     foldl (\<lambda>d e. if Some (eid e) \<in> set annotatedIds then d else setFailedById d (eid e))
       db allEntries"

text \<open>
  \<open>annotatePrompt\<close> never propagates an exception. The result is the database it leaves
  and, when the \<open>catch\<close> block ran, the error caught.
\<close>

definition annotatePrompt ::
  "int \<Rightarrow> database \<Rightarrow> int \<Rightarrow> llm_outcome \<Rightarrow> database \<times> error option" where
  "annotatePrompt now db promptIndex outcome =
     (let pending = getPendingEntries db promptIndex;
          retries = getFailedEntries db 10;
          allEntries = pending @ retries
      in if allEntries = [] then (db, None)
         else
           (let db1 = markAnnotating db (map eid allEntries)
            in (case outcome of
                  CallThrows \<Rightarrow> (markFailed db1 promptIndex, Some ProviderFailure)
                | ParseThrows \<Rightarrow> (markFailed db1 promptIndex, Some JsonParseFailure)
                | Parsed result \<Rightarrow>
                    (case applyResult now db1 promptIndex result of
                       Inl (e, dbe) \<Rightarrow> (markFailed dbe promptIndex, Some e)
                     | Inr (db2, annotatedIds) \<Rightarrow>
                         (failUnannotated db2 allEntries annotatedIds, None)))))"

section \<open>Retriever (src/retrieve.ts)\<close>

definition STOPWORDS :: "string list" where
  "STOPWORDS =
     [''the'', ''a'', ''an'', ''is'', ''are'', ''was'', ''were'', ''be'', ''been'',
      ''being'', ''have'', ''has'', ''had'', ''do'', ''does'', ''did'', ''will'',
      ''would'', ''could'', ''should'', ''may'', ''might'', ''can'', ''shall'',
      ''to'', ''of'', ''in'', ''for'', ''on'', ''with'', ''at'', ''by'', ''from'',
      ''this'', ''that'', ''these'', ''those'', ''it'', ''its'', ''and'', ''or'',
      ''but'', ''not'', ''no'', ''if'', ''then'', ''else'', ''when'', ''where'',
      ''how'', ''what'', ''which'', ''who'', ''whom'', ''why'', ''all'', ''each'',
      ''any'', ''some'', ''such'', ''than'', ''too'', ''very'', ''just'', ''about'',
      ''into'', ''through'', ''during'', ''before'', ''after'', ''above'', ''below'',
      ''between'', ''out'', ''off'', ''over'', ''under'', ''again'', ''further'',
      ''once'', ''here'', ''there'', ''also'', ''both'', ''few'', ''more'', ''most'',
      ''other'', ''only'', ''own'', ''same'', ''so'', ''up'', ''down'', ''now'',
      ''file'', ''code'', ''use'', ''using'', ''used'', ''make'', ''like'',
      ''need'', ''want'', ''get'', ''set'', ''add'', ''new'', ''please'']"

record FtsEntry =
  fe_id :: int
  fe_prompt_index :: int
  fe_file_path :: "string option"
  fe_entry_type :: string
  fe_description :: "string option"
  fe_semantic_group :: "string option"
  rank :: real

definition toFtsEntry :: "EntryRow \<Rightarrow> real \<Rightarrow> FtsEntry" where
  "toFtsEntry e r =
     \<lparr>fe_id = eid e, fe_prompt_index = prompt_index e, fe_file_path = file_path e,
      fe_entry_type = entry_type e, fe_description = description e,
      fe_semantic_group = semantic_group e, rank = r\<rparr>"

definition buildFtsQuery :: "string \<Rightarrow> string option" where
  "buildFtsQuery prompt =
     (let tokens =
            take FTS_MAX_TERMS
              (filter (\<lambda>t. length t > 2 \<and> t \<notin> set STOPWORDS)
                 (split_ws
                    (map (\<lambda>c. if word_char c \<or> space_char c \<or> c \<in> set ''/.-'' then c else CHR '' '')
                       (toLowerCase prompt))))
      in if tokens = [] then None
         else Some (join '' OR '' (map (\<lambda>t. [CHR 0x22] @ t @ [CHR 0x22]) tokens)))"

text \<open>
  The \<open>MATCH\<close> operator and the \<open>rank\<close> column belong to SQLite's FTS5 (Porter stemming,
  BM25): \<open>mtch query doc\<close> says whether a document matches and \<open>rnk query index rowid\<close>
  is the rank of a row; both are parameters. The joins, the filters, the order and the
  limit are those of the statement; rows of equal rank stay in join order.
\<close>

definition searchFts ::
  "(string \<Rightarrow> fts_doc \<Rightarrow> bool) \<Rightarrow> (string \<Rightarrow> (int \<times> fts_doc) list \<Rightarrow> int \<Rightarrow> real)
     \<Rightarrow> database \<Rightarrow> string \<Rightarrow> int \<Rightarrow> nat \<Rightarrow> FtsEntry list" where
  "searchFts mtch rnk db query currentPrompt limit =
     take limit
       (sort_key rank
          [toFtsEntry ce (rnk query (entries_fts db) (fst f)).
             f \<leftarrow> entries_fts db, fm \<leftarrow> fts_map db, fst fm = fst f,
             ce \<leftarrow> entries db, eid ce = snd fm,
             mtch query (snd f),
             low_relevance ce = 0,
             annotation_status ce = ''annotated'',
             prompt_index ce < currentPrompt])"

definition getPreviousSummary :: "database \<Rightarrow> int \<Rightarrow> string option" where
  "getPreviousSummary db promptIndex =
     (case find (\<lambda>e. prompt_index e = promptIndex - 1 \<and> entry_type e = ''summary'') (entries db) of
        None \<Rightarrow> None
      | Some row \<Rightarrow> description row)"

definition expandGroups :: "database \<Rightarrow> string list \<Rightarrow> int list \<Rightarrow> int \<Rightarrow> FtsEntry list" where
  "expandGroups db groups excludeIds currentPrompt =
     concat
       (map (\<lambda>g. map (\<lambda>e. toFtsEntry e 0)
                   (take GROUP_EXPANSION_LIMIT
                      (sort_key (\<lambda>e. - prompt_index e)
                         (filter (\<lambda>e. semantic_group e = Some g \<and>
                                       low_relevance e = 0 \<and>
                                       annotation_status e = ''annotated'' \<and>
                                       prompt_index e < currentPrompt \<and>
                                       eid e \<notin> set excludeIds)
                            (entries db)))))
          groups)"

text \<open>
  Between the location and the description the template of the source file holds three
  code units, U+00E2 U+20AC U+201D, with a space on either side. The last two have no
  \<^typ>\<open>char\<close>; the three are written here as the characters \<open>0xE2\<close>, \<open>0x80\<close> and
  \<open>0x94\<close>, one for each code unit, so that lengths agree with \<open>line.length\<close>.
\<close>

definition entrySeparator :: string where
  "entrySeparator = [CHR '' '', CHR 0xE2, CHR 0x80, CHR 0x94, CHR '' '']"

definition formatEntry :: "FtsEntry \<Rightarrow> string" where
  "formatEntry e =
     (let loc = (case fe_file_path e of None \<Rightarrow> fe_entry_type e | Some fp \<Rightarrow> fp);
          grp = (if truthy (fe_semantic_group e)
                 then '' ('' @ str_or_empty (fe_semantic_group e) @ '')'' else [])
      in ''[Prompt '' @ string_of_int (fe_prompt_index e) @ '']: '' @ loc @ grp @
         entrySeparator @
         (case fe_description e of None \<Rightarrow> ''null'' | Some d \<Rightarrow> d))"

text \<open>
  The two selection loops. The state is \<open>(usedChars, contextLines, selectedIds,
  seenGroups)\<close>; \<open>continue\<close> goes on with the rest, \<open>break\<close> returns the state.
\<close>

fun selectResults ::
  "int \<Rightarrow> FtsEntry list \<Rightarrow> int \<times> string list \<times> int list \<times> string list
     \<Rightarrow> int \<times> string list \<times> int list \<times> string list" where
  "selectResults charBudget [] st = st"
| "selectResults charBudget (entry # rest) (usedChars, contextLines, selectedIds, seenGroups) =
     (if \<not> truthy (fe_description entry)
      then selectResults charBudget rest (usedChars, contextLines, selectedIds, seenGroups)
      else (let line = formatEntry entry
            in if usedChars + int (length line) > charBudget
               then (usedChars, contextLines, selectedIds, seenGroups)
               else selectResults charBudget rest
                      (usedChars + int (length line), contextLines @ [line],
                       set_add (fe_id entry) selectedIds,
                       (if truthy (fe_semantic_group entry)
                        then set_add (str_or_empty (fe_semantic_group entry)) seenGroups
                        else seenGroups))))"

fun selectGroupEntries ::
  "int \<Rightarrow> FtsEntry list \<Rightarrow> int \<times> string list \<times> int list
     \<Rightarrow> int \<times> string list \<times> int list" where
  "selectGroupEntries charBudget [] st = st"
| "selectGroupEntries charBudget (entry # rest) (usedChars, contextLines, selectedIds) =
     (if \<not> truthy (fe_description entry)
      then selectGroupEntries charBudget rest (usedChars, contextLines, selectedIds)
      else (let line = formatEntry entry
            in if usedChars + int (length line) > charBudget
               then (usedChars, contextLines, selectedIds)
               else selectGroupEntries charBudget rest
                      (usedChars + int (length line), contextLines @ [line],
                       set_add (fe_id entry) selectedIds)))"

definition wrapContext :: "string list \<Rightarrow> string" where
  "wrapContext sections =
     ''<distilled_session_context>'' @ [CHR 0x0A] @ join [CHR 0x0A, CHR 0x0A] sections @
     [CHR 0x0A] @ ''</distilled_session_context>''"

definition lastActivityBlock :: "string \<Rightarrow> string" where
  "lastActivityBlock prevSummary =
     ''<last_activity>'' @ [CHR 0x0A] @ prevSummary @ [CHR 0x0A] @ ''</last_activity>''"

definition relevantBlock :: "string list \<Rightarrow> string" where
  "relevantBlock contextLines =
     ''<relevant_context>'' @ [CHR 0x0A] @ join [CHR 0x0A] contextLines @ [CHR 0x0A] @
     ''</relevant_context>''"

text \<open>
  Steps 2 and 3 of \<open>retrieveContext\<close> once the query is built and the search has run:
  the selection from the BM25 results, then from the expanded groups. The result is the
  final \<open>(usedChars, contextLines, selectedIds)\<close>.
\<close>

definition selectContext ::
  "database \<Rightarrow> FtsEntry list \<Rightarrow> int \<Rightarrow> int \<Rightarrow> int \<Rightarrow> int \<times> string list \<times> int list" where
  "selectContext db results currentPromptIndex charBudget usedChars0 =
     (let (usedChars, contextLines, selectedIds, seenGroups) =
            selectResults charBudget results (usedChars0, [], [], [])
      in if seenGroups \<noteq> [] \<and> usedChars < charBudget
         then selectGroupEntries charBudget
                (expandGroups db seenGroups selectedIds currentPromptIndex)
                (usedChars, contextLines, selectedIds)
         else (usedChars, contextLines, selectedIds))"

definition retrieveContext ::
  "(string \<Rightarrow> fts_doc \<Rightarrow> bool) \<Rightarrow> (string \<Rightarrow> (int \<times> fts_doc) list \<Rightarrow> int \<Rightarrow> real)
     \<Rightarrow> database \<Rightarrow> string \<Rightarrow> int \<Rightarrow> int \<Rightarrow> string option" where
  "retrieveContext mtch rnk db userPrompt currentPromptIndex tokenBudget =
     (let charBudget = tokenBudget * CHARS_PER_TOKEN;
          prevSummary = getPreviousSummary db currentPromptIndex;
          sections = (if truthy prevSummary
                      then [lastActivityBlock (str_or_empty prevSummary)] else []);
          usedChars = (if truthy prevSummary
                       then int (length (lastActivityBlock (str_or_empty prevSummary))) else 0)
      in (case buildFtsQuery userPrompt of
            None \<Rightarrow> if sections \<noteq> [] then Some (wrapContext sections) else None
          | Some ftsQuery \<Rightarrow>
              (let results = searchFts mtch rnk db ftsQuery currentPromptIndex FTS_RESULT_LIMIT
               in if results = [] \<and> sections = [] then None
                  else
                    (let (usedChars', contextLines, selectedIds) =
                           selectContext db results currentPromptIndex charBudget usedChars;
                         sections' = (if contextLines \<noteq> []
                                      then sections @ [relevantBlock contextLines]
                                      else sections)
                     in if sections' \<noteq> [] then Some (wrapContext sections') else None))))"

section \<open>Stop hook (src/hooks/on-stop.ts)\<close>

text \<open>
  The database part of \<open>onStop\<close>, on the calls parsed from the buffer file. A missing or
  empty buffer, or one without a parsable line, gives no call and the hook returns at
  once. The annotator mode only decides whether a detached process is spawned afterwards.
\<close>

definition onStop :: "int \<Rightarrow> database \<Rightarrow> BufferedCall list \<Rightarrow> (error \<times> database) + database" where
  "onStop now db calls =
     (if calls = [] then Inr db
      else (let promptIndex = getPromptIndex db
            in (case flushToEntries now db promptIndex calls of
                  Inl e \<Rightarrow> Inl e
                | Inr (db1, ids) \<Rightarrow> selfAnnotatePrompt now db1 promptIndex)))"

section \<open>Invariants and observations\<close>

text \<open>
  The invariant the specification calls the FTS bijection: \<open>fts_map\<close> pairs every
  FTS rowid with one entry id and every entry id with one FTS rowid, with no orphan on
  either side; the keys of the three tables are unique.
\<close>

definition fts_bijection :: "database \<Rightarrow> bool" where
  "fts_bijection db \<longleftrightarrow>
     distinct (map eid (entries db)) \<and>
     distinct (map fst (entries_fts db)) \<and>
     distinct (map fst (fts_map db)) \<and>
     distinct (map snd (fts_map db)) \<and>
     fst ` set (fts_map db) = fst ` set (entries_fts db) \<and>
     snd ` set (fts_map db) = eid ` set (entries db)"

text \<open>
  How a statement of the annotators changes one row: the key columns stay, and the status
  becomes \<open>annotated\<close> for the ids in \<open>S\<close> and stays for the others.
\<close>

definition row_step :: "int set \<Rightarrow> EntryRow \<Rightarrow> EntryRow \<Rightarrow> bool" where
  "row_step S e e' \<longleftrightarrow>
     eid e' = eid e \<and> prompt_index e' = prompt_index e \<and> entry_type e' = entry_type e \<and>
     file_path e' = file_path e \<and>
     annotation_status e' = (if eid e \<in> S then ''annotated'' else annotation_status e)"

definition summariesAt :: "database \<Rightarrow> int \<Rightarrow> EntryRow list" where
  "summariesAt db p =
     filter (\<lambda>e. entry_type e = ''summary'' \<and> prompt_index e = p) (entries db)"

text \<open>A second Stop hook on the outcome of a first one, and the number of summary rows.\<close>

definition thenStop ::
  "int \<Rightarrow> (error \<times> database) + database \<Rightarrow> BufferedCall list
     \<Rightarrow> (error \<times> database) + database" where
  "thenStop now r calls = (case r of Inl e \<Rightarrow> Inl e | Inr db \<Rightarrow> onStop now db calls)"

definition summaryCount :: "(error \<times> database) + database \<Rightarrow> int \<Rightarrow> nat option" where
  "summaryCount r p = (case r of Inl _ \<Rightarrow> None | Inr db \<Rightarrow> Some (length (summariesAt db p)))"

text \<open>The self-annotator followed by a run of the LLM annotator for the same turn.\<close>

definition selfThenLlm ::
  "database \<Rightarrow> int \<Rightarrow> llm_outcome \<Rightarrow> (error \<times> database) + database" where
  "selfThenLlm db p outcome =
     (case selfAnnotatePrompt 0 db p of
        Inl e \<Rightarrow> Inl e
      | Inr db1 \<Rightarrow> Inr (fst (annotatePrompt 5 db1 p outcome)))"

text \<open>The key, the type and the tools of every entry, in table order.\<close>

definition entryKeys :: "database \<Rightarrow> (string option \<times> string \<times> string option list) list" where
  "entryKeys db = map (\<lambda>e. (file_path e, entry_type e, toolsOf (tool_calls e))) (entries db)"

definition flushKeys ::
  "(error \<times> database) + (database \<times> int list)
     \<Rightarrow> ((string option \<times> string \<times> string option list) list \<times> int list) option" where
  "flushKeys r = (case r of Inl _ \<Rightarrow> None | Inr (db, ids) \<Rightarrow> Some (entryKeys db, ids))"


text \<open>
  Observations of \<open>retrieveContext\<close>: the continuity block it starts from, the state of
  its selection loops when they end (\<open>usedChars\<close>, \<open>contextLines\<close>, \<open>selectedIds\<close>), and
  its last step, which wraps the sections present.
\<close>

definition lastActivity :: "database \<Rightarrow> int \<Rightarrow> string list" where
  "lastActivity db currentPromptIndex =
     (let prevSummary = getPreviousSummary db currentPromptIndex
      in if truthy prevSummary then [lastActivityBlock (str_or_empty prevSummary)] else [])"

definition retrievedSelection ::
  "(string \<Rightarrow> fts_doc \<Rightarrow> bool) \<Rightarrow> (string \<Rightarrow> (int \<times> fts_doc) list \<Rightarrow> int \<Rightarrow> real)
     \<Rightarrow> database \<Rightarrow> string \<Rightarrow> int \<Rightarrow> int \<Rightarrow> int \<times> string list \<times> int list" where
  "retrievedSelection mtch rnk db userPrompt currentPromptIndex tokenBudget =
     (let usedChars = sum_list (map (\<lambda>b. int (length b)) (lastActivity db currentPromptIndex))
      in (case buildFtsQuery userPrompt of
            None \<Rightarrow> (usedChars, [], [])
          | Some ftsQuery \<Rightarrow>
              selectContext db
                (searchFts mtch rnk db ftsQuery currentPromptIndex FTS_RESULT_LIMIT)
                currentPromptIndex (tokenBudget * CHARS_PER_TOKEN) usedChars))"

definition assemble :: "string list \<Rightarrow> string list \<Rightarrow> string option" where
  "assemble blocks contextLines =
     (let sections = blocks @ (if contextLines \<noteq> [] then [relevantBlock contextLines] else [])
      in if sections \<noteq> [] then Some (wrapContext sections) else None)"

text \<open>The sum of the lengths of some strings, and the rows retrieval may return.\<close>

definition line_sum :: "string list \<Rightarrow> int" where
  "line_sum ls = sum_list (map (\<lambda>l. int (length l)) ls)"

definition retrievable :: "database \<Rightarrow> int \<Rightarrow> FtsEntry \<Rightarrow> bool" where
  "retrievable db currentPrompt e \<longleftrightarrow>
     (\<exists>row \<in> set (entries db). \<exists>r. e = toFtsEntry row r \<and>
        prompt_index row < currentPrompt \<and> annotation_status row = ''annotated'' \<and>
        low_relevance row = 0)"

text \<open>
  For the repeated application of a response: the condition \<open>fts_wf\<close> on the FTS table
  and its map, which is their key constraints (unique rowids in both, unique entry ids in
  the map) together with a condition no constraint of the schema enforces, that every map
  row points to a row of the FTS table; and the contents of the FTS index up to rowids,
  that is the multiset of its documents, each with the entry id the map gives its row
  (\<open>None\<close> for a row without map row).
\<close>

definition fts_wf :: "database \<Rightarrow> bool" where
  "fts_wf db \<longleftrightarrow>
     distinct (map fst (entries_fts db)) \<and>
     distinct (map fst (fts_map db)) \<and>
     distinct (map snd (fts_map db)) \<and>
     fst ` set (fts_map db) \<subseteq> fst ` set (entries_fts db)"











text \<open>
  The rows a flush adds to a table \<open>es\<close> at prompt index \<open>p\<close>: all \<open>pending\<close>, at that
  index, under ids that are new to the table and differ from one another.
\<close>

definition flushed :: "int \<Rightarrow> EntryRow list \<Rightarrow> EntryRow list \<Rightarrow> bool" where
  "flushed p es rows \<longleftrightarrow>
     (\<forall>r \<in> set rows. prompt_index r = p \<and> annotation_status r = ''pending'' \<and>
                       eid r \<notin> eid ` set es) \<and>
     distinct (map eid rows)"

section \<open>Scenario inputs\<close>

text \<open>Scenario 2 of the specification: two reads of one file, a search and a shell command.\<close>

definition grouping_batch :: "BufferedCall list" where
  "grouping_batch =
     [\<lparr>tool_name = ''Read'', tool_input = [(''file_path'', ''a.ts'')], ts = 1\<rparr>,
      \<lparr>tool_name = ''Grep'', tool_input = [(''pattern'', ''foo'')], ts = 2\<rparr>,
      \<lparr>tool_name = ''Read'', tool_input = [(''file_path'', ''a.ts'')], ts = 3\<rparr>,
      \<lparr>tool_name = ''Bash'', tool_input = [(''command'', ''ls'')], ts = 4\<rparr>]"

text \<open>Scenario 1: the stored calls of a read and an edit of \<open>src/login.ts\<close>.\<close>

definition login_group :: "call_summary list" where
  "login_group =
     [[(''tool'', ''Read''), (''file_path'', ''src/login.ts'')],
      [(''tool'', ''Edit''), (''file_path'', ''src/login.ts''), (''old_string'', ''a''),
       (''new_string'', ''b'')]]"

definition file_change_row :: "string \<Rightarrow> EntryRow" where
  "file_change_row fp =
     \<lparr>eid = 1, prompt_index = 1, file_path = Some fp, entry_type = ''file_change'',
      tool_calls = [], description = None, tags = None, related_files = [],
      semantic_group = None, confidence = None, low_relevance = 0,
      annotation_status = ''pending'', created_at = 0\<rparr>"

text \<open>Scenario 1 as the Stop hook sees it: turn 1, prompt \<open>fix the login bug\<close>.\<close>

definition login_calls :: "BufferedCall list" where
  "login_calls =
     [\<lparr>tool_name = ''Read'', tool_input = [(''file_path'', ''src/login.ts'')], ts = 1\<rparr>,
      \<lparr>tool_name = ''Edit'',
        tool_input = [(''file_path'', ''src/login.ts''), (''old_string'', ''a''),
                      (''new_string'', ''b'')],
        ts = 2\<rparr>]"

definition login_db :: database where
  "login_db = setState (setPromptIndex emptyDb 1) ''prompt_1'' ''fix the login bug''"

text \<open>A database with one pending entry, its FTS row and its map row.\<close>

definition one_entry_db :: database where
  "one_entry_db =
     \<lparr>entries = [file_change_row ''a.ts''], entries_seq = 1,
      entries_fts = [(1, (''a.ts'', [], [], []))], fts_map = [(1, 1)],
      entry_links = [], entry_links_seq = 0, session_state = []\<rparr>"

text \<open>
  Two pending entries of turn 1, and a response whose second annotation has a \<open>null\<close>
  \<open>entry_id\<close>.
\<close>

definition pending_db :: database where
  "pending_db =
     (case flushToEntries 0 (setPromptIndex emptyDb 1) 1
             [\<lparr>tool_name = ''Read'', tool_input = [(''file_path'', ''a.ts'')], ts = 1\<rparr>,
              \<lparr>tool_name = ''Bash'', tool_input = [(''command'', ''ls'')], ts = 2\<rparr>] of
        Inl (_, db) \<Rightarrow> db
      | Inr (db, _) \<Rightarrow> db)"

definition plain_annotation :: "int option \<Rightarrow> Annotation" where
  "plain_annotation i =
     \<lparr>entry_id = i, ann_description = ''Read the module'', ann_tags = ''module'',
      ann_related_files = None, ann_low_relevance = None, ann_confidence = None,
      ann_semantic_group = None\<rparr>"


definition statusesOf :: "database \<Rightarrow> (int \<times> int \<times> string) list" where
  "statusesOf db = map (\<lambda>e. (eid e, prompt_index e, annotation_status e)) (entries db)"

text \<open>
  Turn 2 after a failed annotation of turn 1: the two entries of turn 1 are \<open>failed\<close> and
  a new entry of turn 2 is \<open>pending\<close>.
\<close>

definition retry_db :: database where
  "retry_db =
     (let db1 = markFailed (markAnnotating pending_db [1, 2]) 1;
          db2 = setPromptIndex db1 2
      in (case insertEntry 0 db2 2 (Some ''b.ts'') ''research'' [[(''tool'', ''Read''), (''file_path'', ''b.ts'')]] of
            Inl (_, db) \<Rightarrow> db
          | Inr (db, _) \<Rightarrow> db))"

text \<open>
  Turn 2 of scenario 1, with stand-ins for FTS5: every document matches and all ranks are
  equal.
\<close>

definition match_all :: "string \<Rightarrow> fts_doc \<Rightarrow> bool" where
  "match_all q d = True"

definition rank_zero :: "string \<Rightarrow> (int \<times> fts_doc) list \<Rightarrow> int \<Rightarrow> real" where
  "rank_zero q idx r = 0"

definition login_done_db :: database where
  "login_done_db = (case onStop 0 login_db login_calls of Inl (_, db) \<Rightarrow> db | Inr db \<Rightarrow> db)"


text \<open>
  A response for \<open>pending_db\<close> with two annotations, a link and a summary; the same
  without the summary; and the database after the latter was applied once.
\<close>

definition summary_response :: AnnotationResult where
  "summary_response =
     \<lparr>annotations = Some [plain_annotation (Some 1), plain_annotation (Some 2)],
      links = Some [\<lparr>source_entry_id = 2, target_entry_id = 1, ls_link_type = ''related''\<rparr>],
      prompt_summary = Some (''Read a module and listed files'', ''module,ls'')\<rparr>"

definition links_response :: AnnotationResult where
  "links_response = summary_response\<lparr>prompt_summary := None\<rparr>"

definition first_applied :: database where
  "first_applied =
     (case applyResult 5 pending_db 1 links_response of Inl (_, db) \<Rightarrow> db | Inr (db, _) \<Rightarrow> db)"

lemmas store_defs = insertEntry_def insertFts_def insertFtsMap_def next_rowid_def next_autoinc_def
  str_or_empty_def annotateEntry_def annotateRow_def insertSummaryEntry_def getPendingEntries_def
  in_progress_def getState_def emptyDb_def

lemmas grouper_defs = flushToEntries_def fileKey_def IGNORED_TOOLS_def FILE_TOOLS_def
  WRITE_TOOLS_def summarizeCall_def TOOL_KEY_FIELDS_def truncate_str_def classifyTool_def
  truthy_def opt_field_def

lemmas path_defs = shortPathOf_def shortenPath_def path_parts_def

section \<open>Session database file name\<close>

lemma id_char_dash: "id_char (CHR ''-'')"
  by (simp add: id_char_def)

text \<open>
  C9 as stated: every non-alphanumeric character of a session id is replaced by \<open>_\<close>,
  so a \<open>-\<close> becomes \<open>_\<close>. The code keeps \<open>-\<close>: the id \<open>a-b\<close> is its own file name.
\<close>

theorem sanitizeId_keeps_dash_counterexample:
  "sanitizeId ''a-b'' = ''a-b'' \<and> sanitizeId ''a-b'' \<noteq> ''a_b''"
  by (simp add: sanitizeId_def id_char_def lower_chars_def)

text \<open>
  C9 as amended: the file name is the session id with every character outside
  \<open>[a-zA-Z0-9_-]\<close> replaced by \<open>_\<close>, each character of that class (the hyphen and the
  underscore among them) kept, and nothing added or removed; the path depends on the id
  only through that name, so equal ids (and ids with equal sanitized names) resolve to
  the same file.
\<close>

theorem sanitizeId_spec:
  "length (sanitizeId s) = length s \<and>
   (\<forall>i < length s. sanitizeId s ! i = (if id_char (s ! i) then s ! i else CHR ''_'')) \<and>
   sanitizeId ''-_'' = ''-_'' \<and>
   dbPath d s = d @ ''/'' @ sanitizeId s @ ''.db'' \<and>
   (sanitizeId s = sanitizeId t \<longrightarrow> dbPath d s = dbPath d t)"
  by (simp add: sanitizeId_def dbPath_def id_char_def)

theorem sanitizeId_spec_witness:
  "sanitizeId ''a b'' = sanitizeId ''a?b'' \<and> dbPath ''/h'' ''a b'' = dbPath ''/h'' ''a?b'' \<and>
   dbPath ''/h'' ''a b'' = ''/h/a_b.db'' \<and> sanitizeId ''a b'' ! 1 = CHR ''_''"
  using sanitizeId_spec [of "''a b''" "''a?b''" "''/h''"]
  by (simp add: sanitizeId_def id_char_def lower_chars_def upper_chars_def digit_chars_def dbPath_def)

section \<open>Grouping of buffered calls\<close>

text \<open>
  C1: on the batch \<open>[Read a.ts, Grep foo, Read a.ts, Bash ls]\<close> the Grouper makes three
  entries, and the claim keys the search entry by its pattern \<open>foo\<close>. The code takes the
  key of a file tool from \<open>file_path\<close>, then \<open>notebook_path\<close>, and never from \<open>pattern\<close>:
  the search entry is keyed \<open>_unknown\<close>.
\<close>

theorem flushToEntries_grep_key:
  "flushKeys (flushToEntries 0 emptyDb 1 grouping_batch) =
     Some ([(Some ''a.ts'', ''research'', [Some ''Read'', Some ''Read'']),
            (Some ''_unknown'', ''research'', [Some ''Grep'']),
            (Some ''ls'', ''command'', [Some ''Bash''])], [1, 2, 3])"
  by code_simp

section \<open>Descriptions of file changes\<close>

lemma filter_count_pos: "x \<in> set xs \<Longrightarrow> P x \<Longrightarrow> 1 \<le> length (filter P xs)"
  by (induction xs) auto

lemma edit_count_pos:
  "Some ''Edit'' \<in> set (toolsOf calls) \<Longrightarrow>
   1 \<le> length (filter (\<lambda>c. map_of c ''tool'' = Some ''Edit'') calls)"
proof -
  assume "Some ''Edit'' \<in> set (toolsOf calls)"
  then obtain c where c: "c \<in> set calls" "map_of c ''tool'' = Some ''Edit''"
    by (auto simp: toolsOf_def)
  show ?thesis
    by (rule filter_count_pos [of c calls "\<lambda>c. map_of c ''tool'' = Some ''Edit''", OF c])
qed

text \<open>
  C8 as stated: the description is \<open>Created\<close> exactly when the calls of the group are only
  write-tool calls. A read followed by a write gives \<open>Created\<close> although \<open>Read\<close> is no
  write tool, and a lone edit, a write-tool call, gives \<open>Modified\<close>.
\<close>

theorem buildDescription_created_counterexample:
  "buildDescription (file_change_row ''a.ts'')
     [[(''tool'', ''Read''), (''file_path'', ''a.ts'')],
      [(''tool'', ''Write''), (''file_path'', ''a.ts'')]] = ''Created a.ts'' \<and>
   ''Read'' \<notin> set WRITE_TOOLS \<and>
   buildDescription (file_change_row ''a.ts'')
     [[(''tool'', ''Edit''), (''file_path'', ''a.ts'')]] = ''Modified a.ts (1 edit)'' \<and>
   ''Edit'' \<in> set WRITE_TOOLS"
  by (simp add: buildDescription_def file_change_row_def toolsOf_def path_defs WRITE_TOOLS_def
        string_of_nat_def decimal.simps digit_chars_def)

text \<open>
  C8 as amended: for a \<open>file_change\<close> entry the description is \<open>Created <short>\<close> exactly
  when some call is a \<open>Write\<close> and none is an \<open>Edit\<close> (reads and notebook edits may be
  present); it is \<open>Modified <short> (N edit)\<close> for \<open>N = 1\<close> and
  \<open>Modified <short> (N edits)\<close> for \<open>N > 1\<close> exactly when some call is an \<open>Edit\<close>, with
  \<open>N\<close> the number of \<open>Edit\<close> calls; and it is \<open>Changed <short>\<close> exactly when there is
  neither a \<open>Write\<close> nor an \<open>Edit\<close>.
\<close>

theorem buildDescription_file_change:
  assumes "entry_type e = ''file_change''"
  shows "(let W = (Some ''Write'' \<in> set (toolsOf calls));
              E = (Some ''Edit'' \<in> set (toolsOf calls));
              n = length (filter (\<lambda>c. map_of c ''tool'' = Some ''Edit'') calls);
              d = buildDescription e calls
          in (W \<and> \<not> E \<longrightarrow> d = ''Created '' @ shortPathOf e) \<and>
             (E \<longrightarrow> d = ''Modified '' @ shortPathOf e @ '' ('' @ string_of_nat n @
                        (if n = 1 then '' edit)'' else '' edits)'')) \<and>
             (\<not> W \<and> \<not> E \<longrightarrow> d = ''Changed '' @ shortPathOf e) \<and>
             (take 8 d = ''Created '' \<longleftrightarrow> W \<and> \<not> E) \<and>
             (take 9 d = ''Modified '' \<longleftrightarrow> E) \<and>
             (take 8 d = ''Changed '' \<longleftrightarrow> \<not> W \<and> \<not> E) \<and>
             (E \<longrightarrow> n \<ge> 1))"
proof (cases "Some ''Edit'' \<in> set (toolsOf calls)")
  case True
  from edit_count_pos [OF True] show ?thesis
    using assms True by (auto simp: buildDescription_def Let_def)
next
  case False
  then show ?thesis
    using assms by (simp add: buildDescription_def Let_def)
qed

theorem buildDescription_file_change_witness:
  "entry_type (file_change_row ''src/login.ts'') = ''file_change'' \<and>
   Some ''Edit'' \<in> set (toolsOf login_group) \<and>
   buildDescription (file_change_row ''src/login.ts'') login_group =
     ''Modified src/login.ts (1 edit)''"
proof -
  have h: "entry_type (file_change_row ''src/login.ts'') = ''file_change''"
    by (simp add: file_change_row_def)
  show ?thesis
    using h buildDescription_file_change [OF h, of login_group]
    by (simp add: Let_def file_change_row_def login_group_def toolsOf_def path_defs
          string_of_nat_def decimal.simps digit_chars_def)
qed

section \<open>Annotating an id that has no entry\<close>

lemma next_rowid_fresh: "next_rowid rs \<notin> set rs"
proof (cases "rs = []")
  case True then show ?thesis by simp
next
  case False
  have "\<forall>r \<in> set rs. r \<le> Max (set rs)" by simp
  then have "\<forall>r \<in> set rs. r < next_rowid rs" using False by (auto simp: next_rowid_def less_Suc_eq_le intro: le_less_trans)
  then show ?thesis by blast
qed

lemma find_None_notin: "find P xs = None \<longleftrightarrow> (\<forall>x \<in> set xs. \<not> P x)"
  by (induction xs) auto

lemma find_Some_in: "find P xs = Some x \<Longrightarrow> x \<in> set xs \<and> P x"
  by (induction xs) (auto split: if_splits)

lemma map_upd_absent: "i \<notin> eid ` set es \<Longrightarrow> map (\<lambda>e. if Some (eid e) = Some i then f e else e) es = es"
  by (induction es) auto

lemma annotateEntry_entries:
  "annotateEntry db ident d t g rf c lr = Inr db' \<Longrightarrow>
   entries db' = map (\<lambda>e. if Some (eid e) = ident then annotateRow d t g rf c lr e else e) (entries db)"
  by (auto simp: annotateEntry_def insertFts_def insertFtsMap_def Let_def split: option.splits if_splits)

lemma annotateEntry_entries_err:
  "annotateEntry db ident d t g rf c lr = Inl (er, db') \<Longrightarrow>
   entries db' = map (\<lambda>e. if Some (eid e) = ident then annotateRow d t g rf c lr e else e) (entries db)"
  by (auto simp: annotateEntry_def insertFts_def insertFtsMap_def Let_def split: option.splits if_splits)

text \<open>
  C10: when \<open>i\<close> is the id of no row of \<open>entries\<close>, \<open>annotateEntry\<close> with \<open>i\<close> completes,
  leaves \<open>entries\<close> as it is, and inserts an FTS row with an empty \<open>file_path\<close> and a map
  row from its rowid to \<open>i\<close>; the FTS bijection does not hold afterwards. When no map row
  for \<open>i\<close> existed both tables grow by exactly that row. The map is assumed to have
  distinct rowids that all occur in the FTS table, as it does under the bijection.
\<close>

theorem annotateEntry_unknown_id:
  assumes "i \<notin> eid ` set (entries db)"
    and "distinct (map fst (fts_map db))"
    and "fst ` set (fts_map db) \<subseteq> fst ` set (entries_fts db)"
  shows "\<exists>db' r. annotateEntry db (Some i) d t g rf c lr = Inr db' \<and>
           entries db' = entries db \<and>
           (r, ([], d, t, g)) \<in> set (entries_fts db') \<and>
           (r, i) \<in> set (fts_map db') \<and>
           \<not> fts_bijection db' \<and>
           (i \<notin> snd ` set (fts_map db) \<longrightarrow>
              r \<notin> fst ` set (entries_fts db) \<and>
              entries_fts db' = entries_fts db @ [(r, ([], d, t, g))] \<and>
              fts_map db' = fts_map db @ [(r, i)])"
proof -
  let ?es = "map (\<lambda>e. if Some (eid e) = Some i then annotateRow d t g rf c lr e else e) (entries db)"
  have es: "?es = entries db" using assms(1) by (rule map_upd_absent)
  have noentry: "find (\<lambda>e. Some (eid e) = Some i) (entries db) = None"
    using assms(1) by (auto simp: find_None_notin)
  show ?thesis
  proof (cases "find (\<lambda>m. Some (snd m) = Some i) (fts_map db)")
    case None
    then have nomap: "i \<notin> snd ` set (fts_map db)" by (auto simp: find_None_notin)
    let ?r = "next_rowid (map fst (entries_fts db))"
    have fresh: "?r \<notin> fst ` set (entries_fts db)" using next_rowid_fresh [of "map fst (entries_fts db)"] by simp
    then have fresh': "?r \<notin> fst ` set (fts_map db)" using assms(3) by blast
    let ?db' = "db\<lparr>entries_fts := entries_fts db @ [(?r, ([], d, t, g))], fts_map := fts_map db @ [(?r, i)]\<rparr>"
    have run: "annotateEntry db (Some i) d t g rf c lr = Inr ?db'"
      using None noentry es nomap fresh'
      by (simp add: annotateEntry_def insertFts_def insertFtsMap_def Let_def)
    have "i \<in> snd ` set (fts_map ?db')" by simp
    then have "\<not> fts_bijection ?db'" using assms(1) by (auto simp: fts_bijection_def)
    then show ?thesis using run fresh by (intro exI [of _ ?db'] exI [of _ ?r]) simp
  next
    case (Some m)
    then have m: "m \<in> set (fts_map db)" "snd m = i" by (auto dest: find_Some_in)
    let ?fts = "filter (\<lambda>r. fst r \<noteq> fst m) (entries_fts db)"
    let ?map = "filter (\<lambda>m'. Some (snd m') \<noteq> Some i) (fts_map db)"
    let ?r = "next_rowid (map fst ?fts)"
    have fresh: "?r \<notin> fst ` set ?fts" using next_rowid_fresh [of "map fst ?fts"] by simp
    have "fst ` set ?map \<subseteq> fst ` set ?fts"
    proof
      fix x assume "x \<in> fst ` set ?map"
      then obtain m' where m': "m' \<in> set (fts_map db)" "snd m' \<noteq> i" "fst m' = x" by auto
      then have "m' \<noteq> m" using m by auto
      then have "fst m' \<noteq> fst m" using assms(2) m(1) m'(1) by (auto simp: distinct_map inj_on_def)
      moreover have "fst m' \<in> fst ` set (entries_fts db)" using assms(3) m'(1) by auto
      ultimately show "x \<in> fst ` set ?fts" using m'(3) by auto
    qed
    then have fresh': "?r \<notin> fst ` set ?map" using fresh by blast
    have nodup: "i \<notin> snd ` set ?map" by auto
    let ?db' = "db\<lparr>entries_fts := ?fts @ [(?r, ([], d, t, g))], fts_map := ?map @ [(?r, i)]\<rparr>"
    have run: "annotateEntry db (Some i) d t g rf c lr = Inr ?db'"
      using Some noentry es fresh' nodup
      by (simp add: annotateEntry_def insertFts_def insertFtsMap_def Let_def)
    have "i \<in> snd ` set (fts_map ?db')" by simp
    then have nb: "\<not> fts_bijection ?db'" using assms(1) by (auto simp: fts_bijection_def)
    have "i \<in> snd ` set (fts_map db)" using m by force
    then show ?thesis using run nb by (intro exI [of _ ?db'] exI [of _ ?r]) simp
  qed
qed

theorem annotateEntry_unknown_id_witness:
  "99 \<notin> eid ` set (entries one_entry_db) \<and> fts_bijection one_entry_db \<and>
   (\<exists>db' r. annotateEntry one_entry_db (Some 99) ''d'' ''t'' ''g'' [] (1 / 2) False = Inr db' \<and>
       entries db' = entries one_entry_db \<and>
       entries_fts db' = entries_fts one_entry_db @ [(r, ([], ''d'', ''t'', ''g''))] \<and>
       fts_map db' = fts_map one_entry_db @ [(r, 99)] \<and>
       \<not> fts_bijection db')"
proof -
  have h1: "99 \<notin> eid ` set (entries one_entry_db)"
    by (simp add: one_entry_db_def file_change_row_def)
  have h2: "distinct (map fst (fts_map one_entry_db))"
    by (simp add: one_entry_db_def)
  have h3: "fst ` set (fts_map one_entry_db) \<subseteq> fst ` set (entries_fts one_entry_db)"
    by (simp add: one_entry_db_def)
  have h4: "99 \<notin> snd ` set (fts_map one_entry_db)"
    by (simp add: one_entry_db_def)
  have bij: "fts_bijection one_entry_db"
    by (simp add: fts_bijection_def one_entry_db_def file_change_row_def)
  from annotateEntry_unknown_id [OF h1 h2 h3, of "''d''" "''t''" "''g''" "[]" "1 / 2" False]
  show ?thesis using h1 h4 bij by blast
qed

section \<open>Status closure of the Stop hook\<close>

lemma row_step_annotateRow:
  "row_step {i} e (if Some (eid e) = Some i then annotateRow d t g rf c lr e else e)"
  by (simp add: row_step_def annotateRow_def)

lemma row_step_trans:
  "row_step S a b \<Longrightarrow> row_step T b c \<Longrightarrow> row_step (S \<union> T) a c"
  by (auto simp: row_step_def)

lemma list_all2_map_self: "(\<And>x. x \<in> set xs \<Longrightarrow> R x (f x)) \<Longrightarrow> list_all2 R xs (map f xs)"
  by (induction xs) auto

lemma annotateEntry_rows:
  assumes "annotateEntry db (Some i) d t g rf c lr = Inr db'"
  shows "list_all2 (row_step {i}) (entries db) (entries db')"
  unfolding annotateEntry_entries [OF assms]
  by (rule list_all2_map_self) (rule row_step_annotateRow)

lemma selfAnnotateLoop_rows:
  "selfAnnotateLoop db up es parts = Inr (db', parts') \<Longrightarrow>
   list_all2 (row_step (eid ` set es)) (entries db) (entries db')"
proof (induction es arbitrary: db parts)
  case Nil
  then show ?case by (simp add: row_step_def list_all2_refl list.rel_refl)
next
  case (Cons e es)
  from Cons.prems obtain db1 where
    a: "annotateEntry db (Some (eid e)) (buildDescription e (tool_calls e))
          (buildTags e (tool_calls e) up) (buildGroup e) [] (3 / 10)
          (isLowRelevance e (tool_calls e)) = Inr db1"
    and l: "selfAnnotateLoop db1 up es (parts @ [buildDescription e (tool_calls e)]) = Inr (db', parts')"
    by (auto simp: Let_def split: sum.splits)
  have "list_all2 (row_step ({eid e} \<union> eid ` set es)) (entries db) (entries db')"
    by (rule list_all2_trans [OF _ annotateEntry_rows [OF a] Cons.IH [OF l]])
       (rule row_step_trans)
  then show ?case by simp
qed

lemma list_all2_in_right:
  "list_all2 R xs ys \<Longrightarrow> y \<in> set ys \<Longrightarrow> \<exists>x \<in> set xs. R x y"
  by (induction rule: list_all2_induct) auto

lemma list_all2_in_left:
  "list_all2 R xs ys \<Longrightarrow> x \<in> set xs \<Longrightarrow> \<exists>y \<in> set ys. R x y"
  by (induction rule: list_all2_induct) auto

lemma insertSummaryEntry_entries:
  "insertSummaryEntry now db p s t = Inr (db', i) \<Longrightarrow>
   \<exists>row. entries db' = entries db @ [row] \<and> entry_type row = ''summary'' \<and>
         prompt_index row = p \<and> annotation_status row = ''annotated'' \<and> eid row = i"
  by (auto simp: insertSummaryEntry_def insertFts_def insertFtsMap_def Let_def split: if_splits)

lemma selfAnnotatePrompt_closed:
  assumes "selfAnnotatePrompt now db p = Inr db'"
  shows "\<forall>e \<in> set (entries db'). prompt_index e = p \<longrightarrow> \<not> in_progress e"
proof (cases "getPendingEntries db p = []")
  case True
  then have "db' = db" using assms by (simp add: selfAnnotatePrompt_def)
  moreover from True have "\<forall>e \<in> set (entries db). \<not> (prompt_index e = p \<and> in_progress e)"
    by (simp add: getPendingEntries_def filter_empty_conv)
  ultimately show ?thesis by auto
next
  case False
  let ?pend = "getPendingEntries db p"
  from assms False obtain db1 parts sm tg i where
    l: "selfAnnotateLoop db (str_or_empty (getState db (''prompt_'' @ string_of_int p))) ?pend [] = Inr (db1, parts)"
    and s: "insertSummaryEntry now db1 p sm tg = Inr (db', i)"
    by (auto simp: selfAnnotatePrompt_def Let_def split: sum.splits)
  from s obtain row where row: "entries db' = entries db1 @ [row]" "annotation_status row = ''annotated''"
    by (auto dest: insertSummaryEntry_entries)
  have rel: "list_all2 (row_step (eid ` set ?pend)) (entries db) (entries db1)"
    by (rule selfAnnotateLoop_rows [OF l])
  show ?thesis
  proof (intro ballI impI)
    fix e' assume e': "e' \<in> set (entries db')" "prompt_index e' = p"
    show "\<not> in_progress e'"
    proof (cases "e' = row")
      case True then show ?thesis using row by (simp add: in_progress_def)
    next
      case False
      then have "e' \<in> set (entries db1)" using e' row by auto
      then obtain e where e: "e \<in> set (entries db)" "row_step (eid ` set ?pend) e e'"
        using list_all2_in_right [OF rel] by blast
      show ?thesis
      proof (cases "in_progress e")
        case True
        then have "e \<in> set ?pend" using e e' by (simp add: getPendingEntries_def row_step_def)
        then have "eid e \<in> eid ` set ?pend" by blast
        then show ?thesis using e by (simp add: row_step_def in_progress_def)
      next
        case False
        then show ?thesis using e by (auto simp: row_step_def in_progress_def)
      qed
    qed
  qed
qed

lemma next_autoinc_fresh: "next_autoinc sq ids \<notin> set ids"
proof (cases "ids = []")
  case True then show ?thesis by simp
next
  case False
  show ?thesis
  proof
    assume "next_autoinc sq ids \<in> set ids"
    then have "next_autoinc sq ids \<le> Max (set ids)" by simp
    then show False using False by (simp add: next_autoinc_def)
  qed
qed

lemma insertEntry_entries:
  "insertEntry now db p fp ty tc = Inr (db', i) \<Longrightarrow>
   \<exists>row. entries db' = entries db @ [row] \<and> entry_type row = ty \<and> prompt_index row = p \<and>
         annotation_status row = ''pending'' \<and> eid row = i"
  by (auto simp: insertEntry_def insertFts_def insertFtsMap_def Let_def split: if_splits)

lemma insertEntry_fresh:
  "insertEntry now db p fp ty tc = Inr (db', i) \<Longrightarrow> i \<notin> eid ` set (entries db)"
  using next_autoinc_fresh [of "entries_seq db" "map eid (entries db)"]
  by (auto simp: insertEntry_def insertFts_def insertFtsMap_def Let_def split: if_splits)

text \<open>
  What a flush adds to the table: rows at the end, \<open>pending\<close> and at the prompt index
  given, under ids that no row had; the ids are returned in the order of the rows.
\<close>

lemma flushed_step:
  assumes a: "insertEntry now db p fp ty tc = Inr (db1, i)"
    and r: "\<exists>rows. entries db' = entries db1 @ rows \<and> ids' = (ids @ [i]) @ map eid rows \<and>
              flushed p (entries db1) rows"
  shows "\<exists>rows. entries db' = entries db @ rows \<and> ids' = ids @ map eid rows \<and>
              flushed p (entries db) rows"
proof -
  from insertEntry_entries [OF a] obtain row where
    row: "entries db1 = entries db @ [row]" "prompt_index row = p"
      "annotation_status row = ''pending''" "eid row = i"
    by blast
  have fresh: "i \<notin> eid ` set (entries db)" by (rule insertEntry_fresh [OF a])
  from r obtain rows where
    rows: "entries db' = entries db1 @ rows" "ids' = (ids @ [i]) @ map eid rows"
      "flushed p (entries db1) rows"
    by blast
  have "flushed p (entries db) (row # rows)"
    using rows(3) row fresh by (auto simp: flushed_def)
  moreover have "entries db' = entries db @ (row # rows)" using rows(1) row(1) by simp
  moreover have "ids' = ids @ map eid (row # rows)" using rows(2) row(4) by simp
  ultimately show ?thesis by blast
qed

lemma insertGroups_rows:
  "insertGroups now db p gs ids = Inr (db', ids') \<Longrightarrow>
   \<exists>rows. entries db' = entries db @ rows \<and> ids' = ids @ map eid rows \<and>
          flushed p (entries db) rows"
proof (induction gs arbitrary: db ids)
  case Nil then show ?case by (simp add: flushed_def)
next
  case (Cons g gs)
  obtain fp grp where g: "g = (fp, grp)" by (cases g)
  from Cons.prems g obtain db1 i where
    a: "insertEntry now db p (Some fp)
          (if \<exists>c \<in> set grp. tool_name c \<in> set WRITE_TOOLS then ''file_change'' else ''research'')
          (map summarizeCall grp) = Inr (db1, i)"
    and r: "insertGroups now db1 p gs (ids @ [i]) = Inr (db', ids')"
    by (auto simp: Let_def split: sum.splits)
  from flushed_step [OF a Cons.IH [OF r]] show ?case .
qed

lemma insertStandalone_rows:
  "insertStandalone now db p cs ids = Inr (db', ids') \<Longrightarrow>
   \<exists>rows. entries db' = entries db @ rows \<and> ids' = ids @ map eid rows \<and>
          flushed p (entries db) rows"
proof (induction cs arbitrary: db ids)
  case Nil then show ?case by (simp add: flushed_def)
next
  case (Cons c cs)
  from Cons.prems obtain db1 i fp where
    a: "insertEntry now db p fp (classifyTool (tool_name c)) [summarizeCall c] = Inr (db1, i)"
    and r: "insertStandalone now db1 p cs (ids @ [i]) = Inr (db', ids')"
    by (auto simp: Let_def split: sum.splits)
  from flushed_step [OF a Cons.IH [OF r]] show ?case .
qed

lemma flushed_append:
  assumes "flushed p es rows" and "flushed p (es @ rows) rows'"
  shows "flushed p es (rows @ rows')"
proof -
  have disj: "eid r \<noteq> eid r'" if "r \<in> set rows" "r' \<in> set rows'" for r r'
  proof
    assume eq: "eid r = eid r'"
    have "eid r' \<notin> eid ` set (es @ rows)" using assms(2) that(2) by (simp add: flushed_def)
    moreover have "eid r \<in> eid ` set (es @ rows)" using that(1) by simp
    ultimately show False using eq by simp
  qed
  have d: "distinct (map eid (rows @ rows'))"
    using assms disj by (auto simp: flushed_def)
  have "\<forall>r \<in> set rows'. eid r \<notin> eid ` set es"
    using assms(2) by (simp add: flushed_def image_Un)
  then have "\<forall>r \<in> set (rows @ rows'). prompt_index r = p \<and>
               annotation_status r = ''pending'' \<and> eid r \<notin> eid ` set es"
    using assms by (auto simp: flushed_def)
  with d show ?thesis unfolding flushed_def by blast
qed

lemma flushToEntries_rows:
  assumes "flushToEntries now db p calls = Inr (db', ids)"
  shows "\<exists>rows. entries db' = entries db @ rows \<and> ids = map eid rows \<and>
           flushed p (entries db) rows"
proof -
  obtain gs st where g: "groupCalls calls [] [] = (gs, st)" by (cases "groupCalls calls [] []")
  from assms g obtain db1 ids1 where
    a: "insertGroups now db p gs [] = Inr (db1, ids1)"
    and b: "insertStandalone now db1 p st ids1 = Inr (db', ids)"
    by (auto simp: flushToEntries_def split: sum.splits)
  from insertGroups_rows [OF a] obtain rows1 where
    r1: "entries db1 = entries db @ rows1" "ids1 = map eid rows1" "flushed p (entries db) rows1"
    by auto
  from insertStandalone_rows [OF b] obtain rows2 where
    r2: "entries db' = entries db1 @ rows2" "ids = ids1 @ map eid rows2"
      "flushed p (entries db1) rows2"
    by auto
  have "flushed p (entries db) (rows1 @ rows2)"
    using flushed_append [OF r1(3)] r2(3) r1(1) by simp
  moreover have "entries db' = entries db @ (rows1 @ rows2)" using r1(1) r2(1) by simp
  moreover have "ids = map eid (rows1 @ rows2)" using r1(2) r2(2) by simp
  ultimately show ?thesis by blast
qed

lemma selfAnnotatePrompt_rows:
  assumes "selfAnnotatePrompt now db p = Inr db'"
  shows "\<exists>extra. list_all2 (row_step (eid ` set (getPendingEntries db p)))
                   (entries db) (take (length (entries db)) (entries db')) \<and>
                 entries db' = take (length (entries db)) (entries db') @ extra \<and>
                 (\<forall>r \<in> set extra. prompt_index r = p \<and> annotation_status r = ''annotated'' \<and>
                                   entry_type r = ''summary'')"
proof (cases "getPendingEntries db p = []")
  case True
  then have "db' = db" using assms by (simp add: selfAnnotatePrompt_def)
  then show ?thesis using True
    by (intro exI [of _ "[]"]) (simp add: row_step_def list.rel_refl)
next
  case False
  let ?pend = "getPendingEntries db p"
  from assms False obtain db1 parts sm tg i where
    l: "selfAnnotateLoop db (str_or_empty (getState db (''prompt_'' @ string_of_int p))) ?pend [] = Inr (db1, parts)"
    and s: "insertSummaryEntry now db1 p sm tg = Inr (db', i)"
    by (auto simp: selfAnnotatePrompt_def Let_def split: sum.splits)
  from insertSummaryEntry_entries [OF s] obtain row where
    row: "entries db' = entries db1 @ [row]" "annotation_status row = ''annotated''"
      "prompt_index row = p" "entry_type row = ''summary''"
    by blast
  have rel: "list_all2 (row_step (eid ` set ?pend)) (entries db) (entries db1)"
    by (rule selfAnnotateLoop_rows [OF l])
  then have len: "length (entries db1) = length (entries db)" by (simp add: list_all2_lengthD)
  then have tk: "take (length (entries db)) (entries db') = entries db1" using row(1) by simp
  show ?thesis
    unfolding tk using rel row by (intro exI [of _ "[row]"]) simp
qed

lemma login_stop_rows:
  "map_option (map (\<lambda>e. (eid e, prompt_index e, entry_type e, annotation_status e)))
     (case onStop 0 login_db login_calls of Inl _ \<Rightarrow> None | Inr db \<Rightarrow> Some (entries db)) =
   Some [(1, 1, ''file_change'', ''annotated''), (2, 1, ''summary'', ''annotated'')]"
  by code_simp

text \<open>
  C6 as stated: for every batch, no entry of the prompt index is \<open>pending\<close> once the hook
  has completed. With no call in the buffer the hook returns before it opens the database:
  on \<open>pending_db\<close>, whose two entries at the current index 1 are \<open>pending\<close>, it completes
  and both entries are \<open>pending\<close> afterwards.
\<close>

theorem onStop_empty_batch_counterexample:
  "getPromptIndex pending_db = 1 \<and>
   onStop 0 pending_db [] = Inr pending_db \<and>
   statusesOf pending_db = [(1, 1, ''pending''), (2, 1, ''pending'')]"
proof -
  have "getPromptIndex pending_db = 1" by code_simp
  moreover have "onStop 0 pending_db [] = Inr pending_db" by (simp add: onStop_def)
  moreover have "statusesOf pending_db = [(1, 1, ''pending''), (2, 1, ''pending'')]"
    by code_simp
  ultimately show ?thesis by simp
qed

lemma selfAnnotatePrompt_annotates:
  assumes s: "selfAnnotatePrompt now db p = Inr db'"
    and e: "e \<in> set (getPendingEntries db p)"
  shows "\<exists>e' \<in> set (entries db'). eid e' = eid e \<and> prompt_index e' = p \<and>
           annotation_status e' = ''annotated''"
proof -
  let ?S = "eid ` set (getPendingEntries db p)"
  from selfAnnotatePrompt_rows [OF s] obtain extra where
    rel: "list_all2 (row_step ?S) (entries db) (take (length (entries db)) (entries db'))"
    and app: "entries db' = take (length (entries db)) (entries db') @ extra"
    by blast
  have ein: "e \<in> set (entries db)" and ep: "prompt_index e = p"
    using e by (simp_all add: getPendingEntries_def)
  from list_all2_in_left [OF rel ein] obtain e' where
    e': "e' \<in> set (take (length (entries db)) (entries db'))" "row_step ?S e e'" by blast
  have "eid e \<in> ?S" using e by (rule imageI)
  then have "eid e' = eid e \<and> prompt_index e' = p \<and> annotation_status e' = ''annotated''"
    using e'(2) ep by (simp add: row_step_def)
  moreover have "e' \<in> set (entries db')" using e'(1) by (rule in_set_takeD)
  ultimately show ?thesis by blast
qed

lemma selfAnnotatePrompt_new_rows:
  assumes s: "selfAnnotatePrompt now db p = Inr db'"
    and e': "e' \<in> set (entries db')"
    and old: "\<forall>e \<in> set (entries db). eid e = eid e' \<longrightarrow> prompt_index e = p \<and> in_progress e"
  shows "prompt_index e' = p \<and> annotation_status e' = ''annotated''"
proof -
  let ?S = "eid ` set (getPendingEntries db p)"
  from selfAnnotatePrompt_rows [OF s] obtain extra where
    rel: "list_all2 (row_step ?S) (entries db) (take (length (entries db)) (entries db'))"
    and app: "entries db' = take (length (entries db)) (entries db') @ extra"
    and ex: "\<forall>r \<in> set extra. prompt_index r = p \<and> annotation_status r = ''annotated'' \<and>
                              entry_type r = ''summary''"
    by blast
  from e' app have "e' \<in> set (take (length (entries db)) (entries db')) \<or> e' \<in> set extra"
    by (metis Un_iff set_append)
  then show ?thesis
  proof
    assume "e' \<in> set extra"
    then show ?thesis using ex by blast
  next
    assume "e' \<in> set (take (length (entries db)) (entries db'))"
    from list_all2_in_right [OF rel this] obtain e where
      e: "e \<in> set (entries db)" "row_step ?S e e'" by blast
    then have "eid e = eid e'" by (simp add: row_step_def)
    with old e(1) have "prompt_index e = p \<and> in_progress e" by blast
    then have "e \<in> set (getPendingEntries db p)" using e(1) by (simp add: getPendingEntries_def)
    then have "eid e \<in> ?S" by (rule imageI)
    then show ?thesis using e(2) \<open>prompt_index e = p \<and> in_progress e\<close>
      by (simp add: row_step_def)
  qed
qed

text \<open>
  C6 as amended: when \<open>onStop\<close> completes on a batch with at least one call, the flush
  has inserted its entries as \<open>pending\<close> at the current prompt index, and afterwards each
  of them, and each entry that was \<open>pending\<close> or \<open>annotating\<close> at that index before, is
  \<open>annotated\<close>; no entry of that index is \<open>pending\<close> or \<open>annotating\<close>.
\<close>

theorem onStop_annotates:
  assumes "onStop now db calls = Inr db'" and "calls \<noteq> []"
  shows "\<exists>db1 ids. flushToEntries now db (getPromptIndex db) calls = Inr (db1, ids) \<and>
           (\<forall>i \<in> set ids. \<exists>e \<in> set (entries db1). eid e = i \<and>
               prompt_index e = getPromptIndex db \<and> annotation_status e = ''pending'') \<and>
           (\<forall>i \<in> set ids. \<exists>e' \<in> set (entries db'). eid e' = i) \<and>
           (\<forall>e' \<in> set (entries db'). eid e' \<in> set ids \<longrightarrow>
               prompt_index e' = getPromptIndex db \<and> annotation_status e' = ''annotated'') \<and>
           (\<forall>e \<in> set (getPendingEntries db (getPromptIndex db)). \<exists>e' \<in> set (entries db').
               eid e' = eid e \<and> prompt_index e' = getPromptIndex db \<and>
               annotation_status e' = ''annotated'') \<and>
           (\<forall>e' \<in> set (entries db'). prompt_index e' = getPromptIndex db \<longrightarrow>
               annotation_status e' \<noteq> ''pending'' \<and> annotation_status e' \<noteq> ''annotating'')"
proof -
  let ?p = "getPromptIndex db"
  from assms obtain db1 ids where
    f: "flushToEntries now db ?p calls = Inr (db1, ids)"
    and s: "selfAnnotatePrompt now db1 ?p = Inr db'"
    by (auto simp: onStop_def Let_def split: sum.splits)
  from flushToEntries_rows [OF f] obtain rows where
    rows: "entries db1 = entries db @ rows" "ids = map eid rows" "flushed ?p (entries db) rows"
    by blast
  have new: "prompt_index r = ?p \<and> annotation_status r = ''pending'' \<and>
             eid r \<notin> eid ` set (entries db)" if "r \<in> set rows" for r
    using rows(3) that by (simp add: flushed_def)
  have pend_new: "r \<in> set (getPendingEntries db1 ?p)" if "r \<in> set rows" for r
    using new [OF that] that rows(1) by (simp add: getPendingEntries_def in_progress_def)
  have pend_old: "e \<in> set (getPendingEntries db1 ?p)" if "e \<in> set (getPendingEntries db ?p)" for e
    using that rows(1) by (simp add: getPendingEntries_def)
  have c1: "\<forall>i \<in> set ids. \<exists>e \<in> set (entries db1). eid e = i \<and>
               prompt_index e = ?p \<and> annotation_status e = ''pending''"
  proof
    fix i assume "i \<in> set ids"
    then obtain r where r: "r \<in> set rows" "eid r = i" using rows(2) by auto
    then have "r \<in> set (entries db1)" using rows(1) by simp
    then show "\<exists>e \<in> set (entries db1). eid e = i \<and>
               prompt_index e = ?p \<and> annotation_status e = ''pending''"
      using new [OF r(1)] r(2) by blast
  qed
  have c2: "\<forall>i \<in> set ids. \<exists>e' \<in> set (entries db'). eid e' = i"
  proof
    fix i assume "i \<in> set ids"
    then obtain r where r: "r \<in> set rows" "eid r = i" using rows(2) by auto
    from selfAnnotatePrompt_annotates [OF s pend_new [OF r(1)]] r(2)
    show "\<exists>e' \<in> set (entries db'). eid e' = i" by auto
  qed
  have c3: "\<forall>e' \<in> set (entries db'). eid e' \<in> set ids \<longrightarrow>
               prompt_index e' = ?p \<and> annotation_status e' = ''annotated''"
  proof (intro ballI impI)
    fix e' assume e': "e' \<in> set (entries db')" "eid e' \<in> set ids"
    have "\<forall>e \<in> set (entries db1). eid e = eid e' \<longrightarrow> prompt_index e = ?p \<and> in_progress e"
    proof (intro ballI impI)
      fix e assume e: "e \<in> set (entries db1)" "eid e = eid e'"
      from e'(2) rows(2) obtain r where r: "r \<in> set rows" "eid r = eid e'" by auto
      have "e \<notin> set (entries db)"
      proof
        assume "e \<in> set (entries db)"
        then have "eid e \<in> eid ` set (entries db)" by (rule imageI)
        then show False using new [OF r(1)] r(2) e(2) by simp
      qed
      then have "e \<in> set rows" using e(1) rows(1) by simp
      then show "prompt_index e = ?p \<and> in_progress e"
        using new [of e] by (simp add: in_progress_def)
    qed
    from selfAnnotatePrompt_new_rows [OF s e'(1) this]
    show "prompt_index e' = ?p \<and> annotation_status e' = ''annotated''" .
  qed
  have c4: "\<forall>e \<in> set (getPendingEntries db ?p). \<exists>e' \<in> set (entries db').
               eid e' = eid e \<and> prompt_index e' = ?p \<and> annotation_status e' = ''annotated''"
  proof
    fix e assume "e \<in> set (getPendingEntries db ?p)"
    from selfAnnotatePrompt_annotates [OF s pend_old [OF this]]
    show "\<exists>e' \<in> set (entries db').
               eid e' = eid e \<and> prompt_index e' = ?p \<and> annotation_status e' = ''annotated''" .
  qed
  have c5: "\<forall>e' \<in> set (entries db'). prompt_index e' = ?p \<longrightarrow>
               annotation_status e' \<noteq> ''pending'' \<and> annotation_status e' \<noteq> ''annotating''"
    using selfAnnotatePrompt_closed [OF s] by (simp add: in_progress_def)
  from f c1 c2 c3 c4 c5 show ?thesis by blast
qed

theorem onStop_annotates_witness:
  "login_calls \<noteq> [] \<and>
   (\<exists>db'. onStop 0 login_db login_calls = Inr db' \<and> length (entries db') = 2 \<and>
      (\<exists>db1 ids. flushToEntries 0 login_db (getPromptIndex login_db) login_calls = Inr (db1, ids) \<and>
         (\<forall>e' \<in> set (entries db'). eid e' \<in> set ids \<longrightarrow>
            prompt_index e' = getPromptIndex login_db \<and> annotation_status e' = ''annotated'') \<and>
         (\<forall>e' \<in> set (entries db'). prompt_index e' = getPromptIndex login_db \<longrightarrow>
            annotation_status e' \<noteq> ''pending'' \<and> annotation_status e' \<noteq> ''annotating'')))"
proof -
  have ne: "login_calls \<noteq> []" by (simp add: login_calls_def)
  obtain db' where run: "onStop 0 login_db login_calls = Inr db'"
    and len: "length (entries db') = 2"
    using login_stop_rows by (auto split: sum.splits)
  from onStop_annotates [OF run ne] ne len run show ?thesis by blast
qed

section \<open>Summary entries per prompt\<close>

text \<open>
  C5 as stated: at most one summary entry per prompt index. Nothing in the store keeps
  summaries unique: two Stop hooks in one turn (no prompt in between) each insert one, and
  so do the self-annotator and a run of the LLM annotator that applies a
  \<open>prompt_summary\<close> for the same turn (here turn 2 of \<open>retry_db\<close>, where the LLM
  annotator has the failed entries of turn 1 to retry).
\<close>

theorem two_stops_two_summaries_counterexample:
  "summaryCount (thenStop 1 (onStop 0 login_db login_calls) grouping_batch) 1 = Some 2 \<and>
   summaryCount (selfThenLlm retry_db 2 (Parsed summary_response)) 2 = Some 2"
  by code_simp

lemma insertEntry_summaries:
  "insertEntry now db p fp ty tc = Inr (db', i) \<Longrightarrow> ty \<noteq> ''summary'' \<Longrightarrow>
   summariesAt db' q = summariesAt db q"
  by (auto simp: summariesAt_def dest!: insertEntry_entries)

lemma insertGroups_summaries:
  "insertGroups now db p gs ids = Inr (db', ids') \<Longrightarrow> summariesAt db' q = summariesAt db q"
proof (induction gs arbitrary: db ids)
  case Nil then show ?case by simp
next
  case (Cons g gs)
  obtain fp grp where g: "g = (fp, grp)" by (cases g)
  from Cons.prems g obtain db1 i where
    a: "insertEntry now db p (Some fp)
          (if \<exists>c \<in> set grp. tool_name c \<in> set WRITE_TOOLS then ''file_change'' else ''research'')
          (map summarizeCall grp) = Inr (db1, i)"
    and r: "insertGroups now db1 p gs (ids @ [i]) = Inr (db', ids')"
    by (auto simp: Let_def split: sum.splits)
  have "summariesAt db1 q = summariesAt db q"
    by (rule insertEntry_summaries [OF a]) simp
  with Cons.IH [OF r] show ?case by simp
qed

lemma classifyTool_not_summary: "classifyTool n \<noteq> ''summary''"
  by (simp add: classifyTool_def)

lemma insertStandalone_summaries:
  "insertStandalone now db p cs ids = Inr (db', ids') \<Longrightarrow> summariesAt db' q = summariesAt db q"
proof (induction cs arbitrary: db ids)
  case Nil then show ?case by simp
next
  case (Cons c cs)
  from Cons.prems obtain db1 i fp where
    a: "insertEntry now db p fp (classifyTool (tool_name c)) [summarizeCall c] = Inr (db1, i)"
    and r: "insertStandalone now db1 p cs (ids @ [i]) = Inr (db', ids')"
    by (auto simp: Let_def split: sum.splits)
  have "summariesAt db1 q = summariesAt db q"
    by (rule insertEntry_summaries [OF a]) (rule classifyTool_not_summary)
  with Cons.IH [OF r] show ?case by simp
qed

lemma flushToEntries_summaries:
  "flushToEntries now db p calls = Inr (db', ids) \<Longrightarrow> summariesAt db' q = summariesAt db q"
  by (auto simp: flushToEntries_def split: prod.splits sum.splits
        dest!: insertGroups_summaries [where q = q] insertStandalone_summaries [where q = q])

lemma row_step_filter_length:
  "list_all2 (row_step S) xs ys \<Longrightarrow>
   length (filter (\<lambda>e. entry_type e = ''summary'' \<and> prompt_index e = q) ys) =
   length (filter (\<lambda>e. entry_type e = ''summary'' \<and> prompt_index e = q) xs)"
  by (induction rule: list_all2_induct) (auto simp: row_step_def)

lemma selfAnnotatePrompt_summaries:
  assumes "selfAnnotatePrompt now db p = Inr db'"
  shows "length (summariesAt db' q) =
         length (summariesAt db q) + (if q = p \<and> getPendingEntries db p \<noteq> [] then 1 else 0)"
proof (cases "getPendingEntries db p = []")
  case True
  then show ?thesis using assms by (simp add: selfAnnotatePrompt_def)
next
  case False
  from assms False obtain db1 parts sm tg i where
    l: "selfAnnotateLoop db (str_or_empty (getState db (''prompt_'' @ string_of_int p)))
          (getPendingEntries db p) [] = Inr (db1, parts)"
    and s: "insertSummaryEntry now db1 p sm tg = Inr (db', i)"
    by (auto simp: selfAnnotatePrompt_def Let_def split: sum.splits)
  from s obtain row where row: "entries db' = entries db1 @ [row]" "entry_type row = ''summary''"
    "prompt_index row = p"
    by (auto dest: insertSummaryEntry_entries)
  have "length (summariesAt db1 q) = length (summariesAt db q)"
    unfolding summariesAt_def by (rule row_step_filter_length [OF selfAnnotateLoop_rows [OF l]])
  then show ?thesis using row False by (auto simp: summariesAt_def)
qed

text \<open>
  C5 as amended: a completed Stop hook (the same in both annotator modes) adds at most one
  summary entry, at the current prompt index only; from a database without a summary at a
  prompt index it leaves at most one there.
\<close>

theorem onStop_summaries:
  assumes "onStop now db calls = Inr db'"
  shows "length (summariesAt db' p) \<le> length (summariesAt db p) + 1 \<and>
         (p \<noteq> getPromptIndex db \<longrightarrow> length (summariesAt db' p) = length (summariesAt db p)) \<and>
         (summariesAt db p = [] \<longrightarrow> length (summariesAt db' p) \<le> 1)"
proof (cases "calls = []")
  case True
  then show ?thesis using assms by (simp add: onStop_def)
next
  case False
  then obtain db1 ids where f: "flushToEntries now db (getPromptIndex db) calls = Inr (db1, ids)"
    and s: "selfAnnotatePrompt now db1 (getPromptIndex db) = Inr db'"
    using assms by (auto simp: onStop_def Let_def split: sum.splits)
  show ?thesis
    using flushToEntries_summaries [OF f, of p] selfAnnotatePrompt_summaries [OF s, of p]
    by auto
qed

theorem onStop_summaries_witness:
  "summariesAt login_db 1 = [] \<and>
   (\<exists>db'. onStop 0 login_db login_calls = Inr db' \<and> length (summariesAt db' 1) \<le> 1 \<and>
      length (summariesAt db' 2) = length (summariesAt login_db 2))"
proof -
  have none: "summariesAt login_db 1 = []" by code_simp
  have idx: "getPromptIndex login_db = 1" by code_simp
  obtain db' where run: "onStop 0 login_db login_calls = Inr db'"
    using login_stop_rows by (auto split: sum.splits)
  from onStop_summaries [OF run, of 1] onStop_summaries [OF run, of 2] none idx run
  show ?thesis by auto
qed

section \<open>Exceptions in the LLM annotator\<close>


text \<open>
  The retries are a separate matter: \<open>markAnnotating\<close> sets them to \<open>annotating\<close> by id,
  and \<open>markFailed\<close> resets only the rows of the current prompt index.
\<close>

lemma annotatePrompt_retries_left_annotating:
  "statusesOf retry_db = [(1, 1, ''failed''), (2, 1, ''failed''), (3, 2, ''pending'')] \<and>
   snd (annotatePrompt 5 retry_db 2 CallThrows) = Some ProviderFailure \<and>
   statusesOf (fst (annotatePrompt 5 retry_db 2 CallThrows)) =
     [(1, 1, ''annotating''), (2, 1, ''annotating''), (3, 2, ''failed'')]"
  by code_simp


























section \<open>Retrieval\<close>

lemma selectContext_nil: "selectContext db [] C B u = (u, [], [])"
  by (simp add: selectContext_def)

lemma retrieveContext_assemble:
  "retrieveContext mtch rnk db userPrompt C tokenBudget =
     assemble (lastActivity db C)
       (fst (snd (retrievedSelection mtch rnk db userPrompt C tokenBudget)))"
  by (auto simp: retrieveContext_def retrievedSelection_def lastActivity_def assemble_def Let_def
        selectContext_nil split: option.splits prod.splits)

lemma searchFts_retrievable:
  assumes "e \<in> set (searchFts mtch rnk db q C limit)"
  shows "retrievable db C e"
proof -
  let ?rows = "[toFtsEntry ce (rnk q (entries_fts db) (fst f)).
             f \<leftarrow> entries_fts db, fm \<leftarrow> fts_map db, fst fm = fst f,
             ce \<leftarrow> entries db, eid ce = snd fm,
             mtch q (snd f),
             low_relevance ce = 0,
             annotation_status ce = ''annotated'',
             prompt_index ce < C]"
  from assms have "e \<in> set (sort_key rank ?rows)"
    unfolding searchFts_def by (rule in_set_takeD)
  then have "e \<in> set ?rows" by (simp only: set_sort)
  then show ?thesis unfolding retrievable_def by (auto split: if_splits)
qed

lemma expandGroups_retrievable:
  "e \<in> set (expandGroups db groups excl C) \<Longrightarrow> retrievable db C e"
  unfolding expandGroups_def retrievable_def
  by (auto dest!: in_set_takeD)

lemma line_sum_append [simp]: "line_sum (xs @ ys) = line_sum xs + line_sum ys"
  by (simp add: line_sum_def)

lemma line_sum_Nil [simp]: "line_sum [] = 0"
  by (simp add: line_sum_def)

lemma line_sum_Cons [simp]: "line_sum (l # ls) = int (length l) + line_sum ls"
  by (simp add: line_sum_def)

text \<open>
  What a selection loop adds: lines that format entries of its input, counted in
  \<open>usedChars\<close>, and within the budget when there is any.
\<close>

lemma selectResults_adds:
  "selectResults B es (u, ls, ids, gs) = (u', ls', ids', gs') \<Longrightarrow>
   \<exists>sel. set sel \<subseteq> set es \<and> ls' = ls @ map formatEntry sel \<and>
         u' = u + line_sum (map formatEntry sel) \<and> (sel \<noteq> [] \<longrightarrow> u' \<le> B) \<and>
         set ids' = set ids \<union> fe_id ` set sel"
proof (induction es arbitrary: u ls ids gs)
  case Nil
  then show ?case by (intro exI [of _ "[]"]) simp
next
  case (Cons e es)
  show ?case
  proof (cases "truthy (fe_description e)")
    case False
    then have "selectResults B es (u, ls, ids, gs) = (u', ls', ids', gs')"
      using Cons.prems by simp
    from Cons.IH [OF this] obtain sel where
      "set sel \<subseteq> set es" "ls' = ls @ map formatEntry sel"
      "u' = u + line_sum (map formatEntry sel)" "sel \<noteq> [] \<longrightarrow> u' \<le> B"
      "set ids' = set ids \<union> fe_id ` set sel" by blast
    then show ?thesis by (intro exI [of _ sel]) auto
  next
    case True
    show ?thesis
    proof (cases "u + int (length (formatEntry e)) > B")
      case True
      then have "(u', ls', ids', gs') = (u, ls, ids, gs)"
        using Cons.prems \<open>truthy (fe_description e)\<close> by (simp add: Let_def)
      then show ?thesis by (intro exI [of _ "[]"]) simp
    next
      case False
      then have "selectResults B es
          (u + int (length (formatEntry e)), ls @ [formatEntry e], set_add (fe_id e) ids,
           (if truthy (fe_semantic_group e)
            then set_add (str_or_empty (fe_semantic_group e)) gs else gs)) = (u', ls', ids', gs')"
        using Cons.prems \<open>truthy (fe_description e)\<close> by (simp add: Let_def)
      from Cons.IH [OF this] obtain sel where sel:
        "set sel \<subseteq> set es" "ls' = (ls @ [formatEntry e]) @ map formatEntry sel"
        "u' = u + int (length (formatEntry e)) + line_sum (map formatEntry sel)"
        "sel \<noteq> [] \<longrightarrow> u' \<le> B"
        "set ids' = set (set_add (fe_id e) ids) \<union> fe_id ` set sel" by blast
      have "u' \<le> B"
      proof (cases "sel = []")
        case True then show ?thesis using sel(3) False by simp
      next
        case False then show ?thesis using sel(4) by simp
      qed
      then show ?thesis using sel
        by (intro exI [of _ "e # sel"]) (auto simp: set_add_def)
    qed
  qed
qed

lemma selectGroupEntries_adds:
  "selectGroupEntries B es (u, ls, ids) = (u', ls', ids') \<Longrightarrow>
   \<exists>sel. set sel \<subseteq> set es \<and> ls' = ls @ map formatEntry sel \<and>
         u' = u + line_sum (map formatEntry sel) \<and> (sel \<noteq> [] \<longrightarrow> u' \<le> B) \<and>
         set ids' = set ids \<union> fe_id ` set sel"
proof (induction es arbitrary: u ls ids)
  case Nil
  then show ?case by (intro exI [of _ "[]"]) simp
next
  case (Cons e es)
  show ?case
  proof (cases "truthy (fe_description e)")
    case False
    then have "selectGroupEntries B es (u, ls, ids) = (u', ls', ids')"
      using Cons.prems by simp
    from Cons.IH [OF this] obtain sel where
      "set sel \<subseteq> set es" "ls' = ls @ map formatEntry sel"
      "u' = u + line_sum (map formatEntry sel)" "sel \<noteq> [] \<longrightarrow> u' \<le> B"
      "set ids' = set ids \<union> fe_id ` set sel" by blast
    then show ?thesis by (intro exI [of _ sel]) auto
  next
    case True
    show ?thesis
    proof (cases "u + int (length (formatEntry e)) > B")
      case True
      then have "(u', ls', ids') = (u, ls, ids)"
        using Cons.prems \<open>truthy (fe_description e)\<close> by (simp add: Let_def)
      then show ?thesis by (intro exI [of _ "[]"]) simp
    next
      case False
      then have "selectGroupEntries B es
          (u + int (length (formatEntry e)), ls @ [formatEntry e], set_add (fe_id e) ids)
           = (u', ls', ids')"
        using Cons.prems \<open>truthy (fe_description e)\<close> by (simp add: Let_def)
      from Cons.IH [OF this] obtain sel where sel:
        "set sel \<subseteq> set es" "ls' = (ls @ [formatEntry e]) @ map formatEntry sel"
        "u' = u + int (length (formatEntry e)) + line_sum (map formatEntry sel)"
        "sel \<noteq> [] \<longrightarrow> u' \<le> B"
        "set ids' = set (set_add (fe_id e) ids) \<union> fe_id ` set sel" by blast
      have "u' \<le> B"
      proof (cases "sel = []")
        case True then show ?thesis using sel(3) False by simp
      next
        case False then show ?thesis using sel(4) by simp
      qed
      then show ?thesis using sel
        by (intro exI [of _ "e # sel"]) (auto simp: set_add_def)
    qed
  qed
qed

lemma line_sum_nonneg: "0 \<le> line_sum ls"
  by (induction ls) simp_all

lemma selectContext_adds:
  assumes "selectContext db results C B u0 = (u, ls, ids)"
  shows "\<exists>sel. set sel \<subseteq> set results \<union> {e. retrievable db C e} \<and>
           ls = map formatEntry sel \<and> u = u0 + line_sum ls \<and> (ls \<noteq> [] \<longrightarrow> u \<le> B) \<and>
           set ids = fe_id ` set sel"
proof -
  obtain u1 ls1 ids1 gs1 where r1: "selectResults B results (u0, [], [], []) = (u1, ls1, ids1, gs1)"
    by (cases "selectResults B results (u0, [], [], [])") auto
  from selectResults_adds [OF r1] obtain sel1 where s1:
    "set sel1 \<subseteq> set results" "ls1 = map formatEntry sel1"
    "u1 = u0 + line_sum (map formatEntry sel1)" "sel1 \<noteq> [] \<longrightarrow> u1 \<le> B"
    "set ids1 = fe_id ` set sel1" by auto
  show ?thesis
  proof (cases "gs1 \<noteq> [] \<and> u1 < B")
    case False
    then have "(u, ls, ids) = (u1, ls1, ids1)" using assms r1 by (auto simp: selectContext_def)
    then show ?thesis using s1 by (intro exI [of _ sel1]) auto
  next
    case True
    then have "selectGroupEntries B (expandGroups db gs1 ids1 C) (u1, ls1, ids1) = (u, ls, ids)"
      using assms r1 by (simp add: selectContext_def)
    from selectGroupEntries_adds [OF this] obtain sel2 where s2:
      "set sel2 \<subseteq> set (expandGroups db gs1 ids1 C)" "ls = ls1 @ map formatEntry sel2"
      "u = u1 + line_sum (map formatEntry sel2)" "sel2 \<noteq> [] \<longrightarrow> u \<le> B"
      "set ids = set ids1 \<union> fe_id ` set sel2" by blast
    have le: "ls \<noteq> [] \<longrightarrow> u \<le> B"
    proof (cases "sel2 = []")
      case True then show ?thesis using s1 s2 by auto
    next
      case False then show ?thesis using s2 by simp
    qed
    have "set sel2 \<subseteq> {e. retrievable db C e}"
      using s2(1) expandGroups_retrievable by blast
    then show ?thesis using s1 s2 le
      by (intro exI [of _ "sel1 @ sel2"]) auto
  qed
qed

lemma retrievedSelection_adds:
  assumes "retrievedSelection mtch rnk db up C B = (u, ls, ids)"
  shows "\<exists>sel. (\<forall>e \<in> set sel. retrievable db C e) \<and> ls = map formatEntry sel \<and>
           u = line_sum (lastActivity db C) + line_sum ls \<and>
           (ls \<noteq> [] \<longrightarrow> u \<le> B * CHARS_PER_TOKEN) \<and> set ids = fe_id ` set sel"
proof (cases "buildFtsQuery up")
  case None
  then have "(u, ls, ids) = (line_sum (lastActivity db C), [], [])"
    using assms by (simp add: retrievedSelection_def line_sum_def)
  then show ?thesis by (intro exI [of _ "[]"]) simp
next
  case (Some q)
  then have "selectContext db (searchFts mtch rnk db q C FTS_RESULT_LIMIT) C
               (B * CHARS_PER_TOKEN) (line_sum (lastActivity db C)) = (u, ls, ids)"
    using assms by (simp add: retrievedSelection_def line_sum_def)
  from selectContext_adds [OF this] obtain sel where sel:
    "set sel \<subseteq> set (searchFts mtch rnk db q C FTS_RESULT_LIMIT) \<union> {e. retrievable db C e}"
    "ls = map formatEntry sel" "u = line_sum (lastActivity db C) + line_sum ls"
    "ls \<noteq> [] \<longrightarrow> u \<le> B * CHARS_PER_TOKEN" "set ids = fe_id ` set sel" by blast
  have "\<forall>e \<in> set sel. retrievable db C e"
    using sel(1) searchFts_retrievable by blast
  then show ?thesis using sel by (intro exI [of _ sel]) simp
qed


lemma login_retrieval:
  "retrievedSelection match_all rank_zero login_done_db ''login'' 2 50 =
     (182, fst (snd (retrievedSelection match_all rank_zero login_done_db ''login'' 2 50)), [1, 2]) \<and>
   length (fst (snd (retrievedSelection match_all rank_zero login_done_db ''login'' 2 50))) = 2 \<and>
   lastActivity login_done_db 2 \<noteq> []"
  by code_simp

text \<open>
  C3: the lines of the \<open><relevant_context>\<close> section are the formats of entries \<open>sel\<close>
  (those whose ids the code collects in \<open>selectedIds\<close>), from the BM25 search and from the
  group expansion alike, and each is the projection of a row of \<open>entries\<close> with
  \<open>prompt_index\<close> below the current index, status \<open>annotated\<close> and \<open>low_relevance = 0\<close>.
  This holds for every query, index and budget, and for every behaviour of FTS5's
  \<open>MATCH\<close> and \<open>rank\<close>.
\<close>

theorem retrieveContext_lines_retrievable:
  "\<exists>u sel ids.
     retrievedSelection mtch rnk db userPrompt C tokenBudget = (u, map formatEntry sel, ids) \<and>
     set ids = fe_id ` set sel \<and>
     (\<forall>e \<in> set sel. \<exists>row \<in> set (entries db). \<exists>r. e = toFtsEntry row r \<and>
        prompt_index row < C \<and> annotation_status row = ''annotated'' \<and> low_relevance row = 0) \<and>
     retrieveContext mtch rnk db userPrompt C tokenBudget =
       assemble (lastActivity db C) (map formatEntry sel)"
proof -
  obtain u ls ids where r: "retrievedSelection mtch rnk db userPrompt C tokenBudget = (u, ls, ids)"
    by (cases "retrievedSelection mtch rnk db userPrompt C tokenBudget") auto
  from retrievedSelection_adds [OF r] obtain sel where
    sel: "\<forall>e \<in> set sel. retrievable db C e" "ls = map formatEntry sel" "set ids = fe_id ` set sel"
    by blast
  have "retrieveContext mtch rnk db userPrompt C tokenBudget =
       assemble (lastActivity db C) (map formatEntry sel)"
    using retrieveContext_assemble [of mtch rnk db userPrompt C tokenBudget] r sel(2) by simp
  then show ?thesis using r sel unfolding retrievable_def by blast
qed


theorem retrieveContext_lines_retrievable_witness:
  "\<exists>u sel ids.
     retrievedSelection match_all rank_zero login_done_db ''login'' 2 50 =
       (u, map formatEntry sel, ids) \<and>
     ids = [1, 2] \<and> length sel = 2 \<and>
     (\<forall>e \<in> set sel. \<exists>row \<in> set (entries login_done_db). \<exists>r. e = toFtsEntry row r \<and>
        prompt_index row < 2 \<and> annotation_status row = ''annotated'' \<and> low_relevance row = 0)"
proof -
  from retrieveContext_lines_retrievable [of match_all rank_zero login_done_db "''login''" 2 50]
  obtain u sel ids where
    r: "retrievedSelection match_all rank_zero login_done_db ''login'' 2 50 =
          (u, map formatEntry sel, ids)"
    and safe: "\<forall>e \<in> set sel. \<exists>row \<in> set (entries login_done_db). \<exists>r. e = toFtsEntry row r \<and>
        prompt_index row < 2 \<and> annotation_status row = ''annotated'' \<and> low_relevance row = 0"
    by blast
  from login_retrieval r have "ids = [1, 2]" "length sel = 2" by simp_all
  with r safe show ?thesis by blast
qed

section \<open>Token budget\<close>

text \<open>
  C2 as stated: the returned string is at most \<open>tokenBudget \<times> 4\<close> characters long. In
  turn 2 of scenario 1 with \<open>tokenBudget = 50\<close> the counted characters are 182, within
  the 200 of the budget, and the string returned has 281: the wrapper tags and the
  joining newlines are not counted.
\<close>

theorem retrieveContext_over_budget_counterexample:
  "map_option length (retrieveContext match_all rank_zero login_done_db ''login'' 2 50) =
     Some 281 \<and> 50 * CHARS_PER_TOKEN = 200"
  by code_simp

lemma length_join:
  "int (length (join sep xs)) = line_sum xs + int (length sep) * (int (length xs) - 1) +
     (if xs = [] then int (length sep) else 0)"
  by (induction sep xs rule: join.induct) (simp_all add: algebra_simps)

lemma length_wrapContext:
  "int (length (wrapContext sections)) = 57 + int (length (join [CHR 0x0A, CHR 0x0A] sections))"
  by (simp add: wrapContext_def)

lemma length_relevantBlock:
  "ls \<noteq> [] \<Longrightarrow> int (length (relevantBlock ls)) = 38 + line_sum ls + int (length ls)"
  by (simp add: relevantBlock_def length_join)

lemma lastActivity_cases: "lastActivity db C = [] \<or> (\<exists>b. lastActivity db C = [b])"
  by (simp add: lastActivity_def Let_def)

lemma length_assemble:
  assumes "ls \<noteq> []" and "blocks = [] \<or> (\<exists>b. blocks = [b])"
  shows "\<exists>s. assemble blocks ls = Some s \<and>
           int (length s) = line_sum blocks + line_sum ls + int (length ls) + 95 +
              (if blocks = [] then 0 else 2)"
  using assms
  by (auto simp: assemble_def Let_def length_wrapContext length_relevantBlock length_join)

text \<open>
  C2 as amended: \<open>usedChars\<close> is the length of the \<open><last_activity>\<close> block (when there
  is one) plus the lengths of the context lines, and it is at most \<open>tokenBudget \<times> 4\<close>
  whenever a context line was selected. The string returned is then longer than
  \<open>usedChars\<close> by the tags and newlines: by 95 plus the number of lines, and by 2 more
  with a \<open><last_activity>\<close> block. Without a context line the string is the wrapped
  \<open><last_activity>\<close> block, whatever the budget.
\<close>

theorem retrieveContext_budget:
  "\<exists>u ls ids.
     retrievedSelection mtch rnk db userPrompt C tokenBudget = (u, ls, ids) \<and>
     retrieveContext mtch rnk db userPrompt C tokenBudget = assemble (lastActivity db C) ls \<and>
     u = line_sum (lastActivity db C) + line_sum ls \<and>
     (ls \<noteq> [] \<longrightarrow>
        u \<le> tokenBudget * CHARS_PER_TOKEN \<and>
        (\<exists>s. retrieveContext mtch rnk db userPrompt C tokenBudget = Some s \<and>
             int (length s) = u + int (length ls) + 95 +
                (if lastActivity db C = [] then 0 else 2)))"
proof -
  obtain u ls ids where r: "retrievedSelection mtch rnk db userPrompt C tokenBudget = (u, ls, ids)"
    by (cases "retrievedSelection mtch rnk db userPrompt C tokenBudget") auto
  from retrievedSelection_adds [OF r] have
    u: "u = line_sum (lastActivity db C) + line_sum ls"
    and le: "ls \<noteq> [] \<longrightarrow> u \<le> tokenBudget * CHARS_PER_TOKEN"
    by blast+
  have a: "retrieveContext mtch rnk db userPrompt C tokenBudget = assemble (lastActivity db C) ls"
    using retrieveContext_assemble [of mtch rnk db userPrompt C tokenBudget] r by simp
  have "ls \<noteq> [] \<longrightarrow> (\<exists>s. retrieveContext mtch rnk db userPrompt C tokenBudget = Some s \<and>
             int (length s) = u + int (length ls) + 95 +
                (if lastActivity db C = [] then 0 else 2))"
    using length_assemble [OF _ lastActivity_cases, of ls db C] a u by auto
  with r a u le show ?thesis by blast
qed


theorem retrieveContext_budget_witness:
  "\<exists>u ls ids.
     retrievedSelection match_all rank_zero login_done_db ''login'' 2 50 = (u, ls, ids) \<and>
     u = 182 \<and> length ls = 2 \<and> u \<le> 50 * CHARS_PER_TOKEN \<and>
     (\<exists>s. retrieveContext match_all rank_zero login_done_db ''login'' 2 50 = Some s \<and>
          int (length s) = 281)"
proof -
  from retrieveContext_budget [of match_all rank_zero login_done_db "''login''" 2 50]
  obtain u ls ids where
    r: "retrievedSelection match_all rank_zero login_done_db ''login'' 2 50 = (u, ls, ids)"
    and b: "ls \<noteq> [] \<longrightarrow>
        u \<le> 50 * CHARS_PER_TOKEN \<and>
        (\<exists>s. retrieveContext match_all rank_zero login_done_db ''login'' 2 50 = Some s \<and>
             int (length s) = u + int (length ls) + 95 +
                (if lastActivity login_done_db 2 = [] then 0 else 2))"
    by blast
  from login_retrieval r have v: "u = 182" "length ls = 2" "lastActivity login_done_db 2 \<noteq> []"
    by simp_all
  then have "ls \<noteq> []" by auto
  with b v r show ?thesis by auto
qed

section \<open>Applying a response twice\<close>






lemma next_rowid_fresh': "next_rowid (map fst xs) \<notin> fst ` set xs"
  using next_rowid_fresh [of "map fst xs"] by simp



























text \<open>
  The condition \<open>fts_wf\<close> on the FTS tables is more than their key constraints: it also
  asks that no map row is left without its FTS row. The Store keeps it: the empty database
  has it, and an inserted entry or summary keeps it, as does an annotation
  (\<open>applyAnnotations_wf\<close>).
\<close>

lemma fts_wf_emptyDb: "fts_wf emptyDb"
  by (simp add: fts_wf_def emptyDb_def)

lemma fts_wf_insert:
  assumes "fts_wf db"
    and "insertFtsMap (fst (insertFts db doc)) (snd (insertFts db doc)) (Some i) = Inr db'"
  shows "fts_wf db'"
proof -
  let ?r = "next_rowid (map fst (entries_fts db))"
  have fresh: "?r \<notin> fst ` set (entries_fts db)" by (rule next_rowid_fresh')
  from assms(2) have "?r \<notin> fst ` set (fts_map db)" "i \<notin> snd ` set (fts_map db)"
    and db': "db' = db\<lparr>entries_fts := entries_fts db @ [(?r, doc)], fts_map := fts_map db @ [(?r, i)]\<rparr>"
    by (auto simp: insertFts_def insertFtsMap_def Let_def split: if_splits)
  then show ?thesis using assms(1) fresh by (auto simp: fts_wf_def)
qed

lemma insertEntry_fts_wf:
  assumes "fts_wf db" and "insertEntry now db p fp ty tc = Inr (db', i)"
  shows "fts_wf db'"
proof -
  let ?i = "next_autoinc (entries_seq db) (map eid (entries db))"
  let ?db1 = "db\<lparr>entries := entries db @
      [\<lparr>eid = ?i, prompt_index = p, file_path = fp, entry_type = ty, tool_calls = tc,
        description = None, tags = None, related_files = [], semantic_group = None,
        confidence = None, low_relevance = 0, annotation_status = ''pending'',
        created_at = now\<rparr>], entries_seq := ?i\<rparr>"
  let ?doc = "(str_or_empty fp, [], [], [])"
  have wf1: "fts_wf ?db1" using assms(1) by (simp add: fts_wf_def)
  from assms(2) have
    "insertFtsMap (fst (insertFts ?db1 ?doc)) (snd (insertFts ?db1 ?doc)) (Some ?i) = Inr db'"
    by (simp add: insertEntry_def Let_def split_beta split: sum.splits)
  from fts_wf_insert [OF wf1 this] show ?thesis .
qed

lemma insertSummaryEntry_fts_wf:
  assumes "fts_wf db" and "insertSummaryEntry now db p s t = Inr (db', i)"
  shows "fts_wf db'"
proof -
  let ?i = "next_autoinc (entries_seq db) (map eid (entries db))"
  let ?db1 = "db\<lparr>entries := entries db @
      [\<lparr>eid = ?i, prompt_index = p, file_path = None, entry_type = ''summary'',
        tool_calls = [], description = Some s, tags = Some t, related_files = [],
        semantic_group = None, confidence = None, low_relevance = 0,
        annotation_status = ''annotated'', created_at = now\<rparr>], entries_seq := ?i\<rparr>"
  let ?doc = "([], s, t, [])"
  have wf1: "fts_wf ?db1" using assms(1) by (simp add: fts_wf_def)
  from assms(2) have
    "insertFtsMap (fst (insertFts ?db1 ?doc)) (snd (insertFts ?db1 ?doc)) (Some ?i) = Inr db'"
    by (simp add: insertSummaryEntry_def Let_def split_beta split: sum.splits)
  from fts_wf_insert [OF wf1 this] show ?thesis .
qed



text \<open>
  In the scenario the second application inserts no link and moves the counter of
  \<open>entry_links\<close> from 1 to 2.
\<close>

lemma applyResult_twice_counter:
  "entry_links_seq first_applied = 1 \<and>
   (case applyResult 9 first_applied 1 links_response of
      Inl _ \<Rightarrow> None
    | Inr (db2, _) \<Rightarrow> Some (entry_links_seq db2, map link_id (entry_links db2))) = Some (2, [1])"
  by code_simp

end
